theory Spec2Isabelle
  imports Main "HOL-Library.Sublist"
begin

section \<open>Python values used by luks\_encrypt\_usb.py\<close>

text \<open>
  Text is a list of code points below 256 (\<^typ>\<open>string\<close>); \<open>len\<close> is \<^const>\<open>length\<close>.
  The whitespace, line-break and case tables below are Python's \<open>str\<close> tables cut down
  to that range.
\<close>

definition isspace :: "char \<Rightarrow> bool" where
  "isspace c = (c \<in> set [CHR 0x09, CHR 0x0A, CHR 0x0B, CHR 0x0C, CHR 0x0D,
                           CHR 0x1C, CHR 0x1D, CHR 0x1E, CHR 0x1F, CHR 0x20,
                           CHR 0x85, CHR 0xA0])"

text \<open>\<open>s.strip()\<close>\<close>

definition strip :: "string \<Rightarrow> string" where
  "strip s = rev (dropWhile isspace (rev (dropWhile isspace s)))"

definition upper_letters :: string where
  "upper_letters = ''ABCDEFGHIJKLMNOPQRSTUVWXYZ'' @
     [CHR 0xC0, CHR 0xC1, CHR 0xC2, CHR 0xC3, CHR 0xC4, CHR 0xC5, CHR 0xC6, CHR 0xC7,
      CHR 0xC8, CHR 0xC9, CHR 0xCA, CHR 0xCB, CHR 0xCC, CHR 0xCD, CHR 0xCE, CHR 0xCF,
      CHR 0xD0, CHR 0xD1, CHR 0xD2, CHR 0xD3, CHR 0xD4, CHR 0xD5, CHR 0xD6,
      CHR 0xD8, CHR 0xD9, CHR 0xDA, CHR 0xDB, CHR 0xDC, CHR 0xDD, CHR 0xDE]"

definition lower_letters :: string where
  "lower_letters = ''abcdefghijklmnopqrstuvwxyz'' @
     [CHR 0xE0, CHR 0xE1, CHR 0xE2, CHR 0xE3, CHR 0xE4, CHR 0xE5, CHR 0xE6, CHR 0xE7,
      CHR 0xE8, CHR 0xE9, CHR 0xEA, CHR 0xEB, CHR 0xEC, CHR 0xED, CHR 0xEE, CHR 0xEF,
      CHR 0xF0, CHR 0xF1, CHR 0xF2, CHR 0xF3, CHR 0xF4, CHR 0xF5, CHR 0xF6,
      CHR 0xF8, CHR 0xF9, CHR 0xFA, CHR 0xFB, CHR 0xFC, CHR 0xFD, CHR 0xFE]"

definition lower_char :: "char \<Rightarrow> char" where
  "lower_char c =
     (case map_of (zip upper_letters lower_letters) c of Some d \<Rightarrow> d | None \<Rightarrow> c)"

text \<open>\<open>s.lower()\<close>\<close>

definition lower :: "string \<Rightarrow> string" where
  "lower s = map lower_char s"

text \<open>\<open>s.splitlines()\<close>: a line ends at CR LF, CR, LF, VT, FF, FS, GS, RS or NEL;
  the break is dropped and no empty line follows a final break.\<close>

fun splitlines_from :: "string \<Rightarrow> string \<Rightarrow> string list" where
  "splitlines_from cur [] = (if cur = [] then [] else [cur])"
| "splitlines_from cur (c # cs) =
     (if c = CHR 0x0D then
        (case cs of
           [] \<Rightarrow> [cur]
         | d # ds \<Rightarrow> if d = CHR 0x0A then cur # splitlines_from [] ds
                     else cur # splitlines_from [] cs)
      else if c \<in> set [CHR 0x0A, CHR 0x0B, CHR 0x0C, CHR 0x1C, CHR 0x1D, CHR 0x1E, CHR 0x85]
      then cur # splitlines_from [] cs
      else splitlines_from (cur @ [c]) cs)"

definition splitlines :: "string \<Rightarrow> string list" where
  "splitlines s = splitlines_from [] s"

text \<open>\<open>s.split(sep)\<close> for a separator of one character\<close>

fun split_from :: "char \<Rightarrow> string \<Rightarrow> string \<Rightarrow> string list" where
  "split_from sep cur [] = [cur]"
| "split_from sep cur (c # cs) =
     (if c = sep then cur # split_from sep [] cs else split_from sep (cur @ [c]) cs)"

definition split_py :: "char \<Rightarrow> string \<Rightarrow> string list" where
  "split_py sep s = split_from sep [] s"

datatype py_error =
    CalledProcessError int
  | OSError
  | UnicodeError
  | JSONDecodeError
  | AttributeError
  | KeyError
  | IndexError
  | TypeError
  | EOFError

text \<open>\<open>xs[i]\<close> for \<open>i \<ge> 0\<close>\<close>

definition index_py :: "'a list \<Rightarrow> nat \<Rightarrow> py_error + 'a" where
  "index_py xs i = (if i < length xs then Inr (xs ! i) else Inl IndexError)"

text \<open>\<open>int(s)\<close> on text: surrounding whitespace, an optional sign, decimal digits with
  single underscores between them. \<open>None\<close> is \<open>ValueError\<close>. (A Python that limits the
  number of digits raises \<open>ValueError\<close> where this gives a number too large to be a menu
  index; \<open>main\<close> asks again in both cases.)\<close>

definition digit_val :: "char \<Rightarrow> nat option" where
  "digit_val c = map_of (zip ''0123456789'' [0, 1, 2, 3, 4, 5, 6, 7, 8, 9]) c"

fun int_digits :: "nat \<Rightarrow> string \<Rightarrow> nat option" where
  "int_digits acc [] = Some acc"
| "int_digits acc (c # cs) =
     (if c = CHR ''_'' then
        (case cs of
           [] \<Rightarrow> None
         | d # ds \<Rightarrow> (case digit_val d of
                        None \<Rightarrow> None
                      | Some v \<Rightarrow> int_digits (10 * acc + v) ds))
      else (case digit_val c of
              None \<Rightarrow> None
            | Some v \<Rightarrow> int_digits (10 * acc + v) cs))"

definition nat_literal :: "string \<Rightarrow> nat option" where
  "nat_literal s =
     (case s of
        [] \<Rightarrow> None
      | c # cs \<Rightarrow> (case digit_val c of None \<Rightarrow> None | Some v \<Rightarrow> int_digits v cs))"

definition py_int :: "string \<Rightarrow> int option" where
  "py_int s =
     (let t = strip s in
      if t \<noteq> [] \<and> hd t = CHR ''-'' then map_option (\<lambda>n. - int n) (nat_literal (tl t))
      else if t \<noteq> [] \<and> hd t = CHR ''+'' then map_option int (nat_literal (tl t))
      else map_option int (nat_literal t))"

subsection \<open>Parsed JSON\<close>

text \<open>What \<open>json.loads\<close> returns: \<open>None\<close>, \<open>bool\<close>, \<open>int\<close>, \<open>str\<close>, \<open>list\<close> and
  \<open>dict\<close> (an association list with distinct keys, in document order). Numbers are
  integers.\<close>

datatype json =
    JNull
  | JBool bool
  | JInt int
  | JStr string
  | JList "json list"
  | JObj "(string \<times> json) list"

text \<open>\<open>d.get(k, default)\<close> on the items of a dict\<close>

definition dict_get :: "(string \<times> json) list \<Rightarrow> string \<Rightarrow> json \<Rightarrow> json" where
  "dict_get kvs k d = (case map_of kvs k of None \<Rightarrow> d | Some v \<Rightarrow> v)"

text \<open>\<open>v.get(k, default)\<close>: only a dict has the method\<close>

definition get_py :: "json \<Rightarrow> string \<Rightarrow> json \<Rightarrow> py_error + json" where
  "get_py v k d = (case v of JObj kvs \<Rightarrow> Inr (dict_get kvs k d) | _ \<Rightarrow> Inl AttributeError)"

text \<open>\<open>v[k]\<close> with a text key\<close>

definition item_py :: "json \<Rightarrow> string \<Rightarrow> py_error + json" where
  "item_py v k =
     (case v of
        JObj kvs \<Rightarrow> (case map_of kvs k of None \<Rightarrow> Inl KeyError | Some x \<Rightarrow> Inr x)
      | _ \<Rightarrow> Inl TypeError)"

text \<open>\<open>v[0]\<close>\<close>

definition first_py :: "json \<Rightarrow> py_error + json" where
  "first_py v =
     (case v of
        JList xs \<Rightarrow> index_py xs 0
      | JStr s \<Rightarrow> (case s of [] \<Rightarrow> Inl IndexError | c # _ \<Rightarrow> Inr (JStr [c]))
      | JObj kvs \<Rightarrow> Inl KeyError
      | _ \<Rightarrow> Inl TypeError)"

text \<open>Truth value of an object\<close>

definition truthy :: "json \<Rightarrow> bool" where
  "truthy v =
     (case v of
        JNull \<Rightarrow> False
      | JBool b \<Rightarrow> b
      | JInt n \<Rightarrow> n \<noteq> 0
      | JStr s \<Rightarrow> s \<noteq> []
      | JList xs \<Rightarrow> xs \<noteq> []
      | JObj kvs \<Rightarrow> kvs \<noteq> [])"

text \<open>The elements a \<open>for\<close> loop visits\<close>

definition iter_py :: "json \<Rightarrow> py_error + json list" where
  "iter_py v =
     (case v of
        JList xs \<Rightarrow> Inr xs
      | JStr s \<Rightarrow> Inr (map (\<lambda>c. JStr [c]) s)
      | JObj kvs \<Rightarrow> Inr (map (\<lambda>kv. JStr (fst kv)) kvs)
      | _ \<Rightarrow> Inl TypeError)"

section \<open>The environment of a run\<close>

record completed =
  returncode :: int
  stdout :: string
  stderr :: string

text \<open>
  Everything outside the script: the effective user id, \<open>subprocess.run\<close> without its
  \<open>check\<close> (command and piped input to the finished process, or the exception raised
  when it cannot be started or its output decoded), \<open>json.loads\<close>, \<open>os.path.exists\<close>,
  \<open>os.path.expanduser\<close>, \<open>os.makedirs\<close> (the exception raised, if any) and the
  formatted clock reading of \<open>luks_header_backup\<close>.
\<close>

record env =
  geteuid :: nat
  spawn :: "string list \<Rightarrow> string option \<Rightarrow> py_error + completed"
  json_loads :: "string \<Rightarrow> py_error + json"
  path_exists :: "string \<Rightarrow> bool"
  expanduser :: "string \<Rightarrow> string"
  makedirs :: "string \<Rightarrow> py_error option"
  timestamp :: string

text \<open>
  What a run does, in order: lines read by \<open>input\<close> and \<open>getpass\<close> (with the prompt; the
  \<open>EOF\<close> events are the reads that raise \<open>EOFError\<close>), calls of \<open>run_command\<close> with
  their result, queries of \<open>os.path.exists\<close> and calls of \<open>os.makedirs\<close>. Text written
  by \<open>print\<close> and the spinner thread are left out, and so is an interrupt from the
  keyboard. The lines that \<open>input\<close> and \<open>getpass\<close> will return are two finite lists;
  a read past the end of a list is the end of the stream.
\<close>

datatype event =
    Input string string
  | InputEOF string
  | GetPass string string
  | GetPassEOF string
  | Run "string list" "string option" "py_error + string \<times> string"
  | PathExists string bool
  | MakeDirs string "py_error option"

text \<open>How the process ends: \<open>sys.exit(n)\<close>, the return of \<open>main\<close> (status 0), or an
  exception that nothing catches (traceback, status 1).\<close>

datatype outcome = Exit nat | Returned | Uncaught py_error

definition prepend :: "event list \<Rightarrow> event list \<times> 'a \<Rightarrow> event list \<times> 'a" where
  "prepend es r = (es @ fst r, snd r)"

section \<open>Utility functions\<close>

definition run_command ::
  "env \<Rightarrow> string list \<Rightarrow> string option \<Rightarrow> bool \<Rightarrow> py_error + string \<times> string" where
  "run_command e command input_data check_returncode =
     (case spawn e command input_data of
        Inl err \<Rightarrow> Inl err
      | Inr p \<Rightarrow>
          if check_returncode \<and> returncode p \<noteq> 0
          then Inl (CalledProcessError (returncode p))
          else Inr (stdout p, stderr p))"

subsection \<open>get\_block\_devices\<close>

datatype piece = Lit string | Val json

record device =
  name :: string
  size :: json
  display_name :: "piece list"
  model :: string
  vendor :: string
  is_mounted :: bool

text \<open>\<open>(v or '').strip()\<close>\<close>

definition or_empty_strip :: "json \<Rightarrow> py_error + string" where
  "or_empty_strip v =
     (if truthy v then (case v of JStr s \<Rightarrow> Inr (strip s) | _ \<Rightarrow> Inl AttributeError)
      else Inr [])"

text \<open>The loop over \<open>block['children']\<close>, left at the first mounted child\<close>

fun child_mounted :: "json list \<Rightarrow> py_error + bool" where
  "child_mounted [] = Inr False"
| "child_mounted (child # rest) =
     (case get_py child ''mountpoint'' JNull of
        Inl err \<Rightarrow> Inl err
      | Inr m \<Rightarrow> if truthy m then Inr True else child_mounted rest)"

text \<open>One pass of the loop body: \<open>None\<close> is \<open>continue\<close>, \<open>Some d\<close> the record appended.\<close>

definition block_device :: "json \<Rightarrow> py_error + device option" where
  "block_device block =
     (case block of
        JObj kvs \<Rightarrow>
          if dict_get kvs ''type'' JNull \<noteq> JStr ''disk'' then Inr None
          else (case map_of kvs ''name'' of
            None \<Rightarrow> Inl KeyError
          | Some nm \<Rightarrow>
             (let sz = dict_get kvs ''size'' (JStr ''Unknown Size'') in
              case or_empty_strip (dict_get kvs ''model'' JNull) of
                Inl err \<Rightarrow> Inl err
              | Inr mdl \<Rightarrow>
             (case or_empty_strip (dict_get kvs ''vendor'' JNull) of
                Inl err \<Rightarrow> Inl err
              | Inr vnd \<Rightarrow>
             (let removable = dict_get kvs ''rm'' (JBool False) in
              case nm of
                JStr n \<Rightarrow>
                  if sublist ''nvme'' (lower n) then Inr None
                  else if \<not> truthy removable then Inr None
                  else
                    (case (case map_of kvs ''children'' of
                             None \<Rightarrow> Inr False
                           | Some ch \<Rightarrow> (case iter_py ch of
                                           Inl err \<Rightarrow> Inl err
                                         | Inr cs \<Rightarrow> child_mounted cs)) of
                       Inl err \<Rightarrow> Inl err
                     | Inr cm \<Rightarrow>
                         (let device_name = ''/dev/'' @ n in
                          Inr (Some \<lparr>name = device_name, size = sz,
                            display_name =
                              (if mdl \<noteq> [] \<and> vnd \<noteq> []
                               then [Lit vnd, Lit '' '', Lit mdl, Lit '' '', Val sz]
                               else [Lit device_name, Lit '' '', Val sz]),
                            model = mdl, vendor = vnd,
                            is_mounted = (truthy (dict_get kvs ''mountpoint'' JNull) \<or> cm)\<rparr>)))
              | _ \<Rightarrow> Inl AttributeError))))
      | _ \<Rightarrow> Inl AttributeError)"

fun scan_blocks :: "json list \<Rightarrow> py_error + device list" where
  "scan_blocks [] = Inr []"
| "scan_blocks (block # rest) =
     (case block_device block of
        Inl err \<Rightarrow> Inl err
      | Inr None \<Rightarrow> scan_blocks rest
      | Inr (Some d) \<Rightarrow>
          (case scan_blocks rest of Inl err \<Rightarrow> Inl err | Inr ds \<Rightarrow> Inr (d # ds)))"

text \<open>The part of \<open>get_block_devices\<close> after the \<open>try\<close>\<close>

definition devices_of :: "json \<Rightarrow> py_error + device list" where
  "devices_of data =
     (case get_py data ''blockdevices'' (JList []) of
        Inl err \<Rightarrow> Inl err
      | Inr bl \<Rightarrow> (case iter_py bl of Inl err \<Rightarrow> Inl err | Inr blocks \<Rightarrow> scan_blocks blocks))"

definition lsblk_list_command :: "string list" where
  "lsblk_list_command =
     [''lsblk'', ''--json'', ''-o'', ''NAME,SIZE,TYPE,ROTA,MODEL,VENDOR,FSTYPE,MOUNTPOINT,RM'']"

definition get_block_devices :: "env \<Rightarrow> event list \<times> (outcome + device list)" where
  "get_block_devices e =
     (let r = run_command e lsblk_list_command None True in
      ([Run lsblk_list_command None r],
       case r of
         Inl err \<Rightarrow> Inl (Exit 1)
       | Inr out \<Rightarrow>
           (case json_loads e (fst out) of
              Inl err \<Rightarrow> Inl (Exit 1)
            | Inr data \<Rightarrow>
                (case devices_of data of
                   Inl err \<Rightarrow> Inl (Uncaught err)
                 | Inr devices \<Rightarrow> Inr devices))))"

subsection \<open>get\_partition\_table\_type\<close>

text \<open>The loop over the lines: \<open>Inr None\<close> when it ends without a \<open>return\<close>.\<close>

fun scan_lines :: "string list \<Rightarrow> py_error + string option" where
  "scan_lines [] = Inr None"
| "scan_lines (line # rest) =
     (if sublist ''Partition Table:'' line
      then (case index_py (split_py (CHR '':'') line) 1 of
              Inl err \<Rightarrow> Inl err
            | Inr field \<Rightarrow> Inr (Some (lower (strip field))))
      else scan_lines rest)"

definition parted_command :: "string \<Rightarrow> string list" where
  "parted_command device_path = [''parted'', ''-s'', device_path, ''print'']"

text \<open>The value returned from what \<open>run_command\<close> gave\<close>

definition table_type_of :: "py_error + string \<times> string \<Rightarrow> string" where
  "table_type_of r =
     (case r of
        Inl err \<Rightarrow> ''unknown''
      | Inr out \<Rightarrow>
          (case scan_lines (splitlines (fst out)) of
             Inl err \<Rightarrow> ''unknown''
           | Inr None \<Rightarrow> ''unknown''
           | Inr (Some v) \<Rightarrow> v))"

definition get_partition_table_type :: "env \<Rightarrow> string \<Rightarrow> event list \<times> string" where
  "get_partition_table_type e device_path =
     (let r = run_command e (parted_command device_path) None False in
      ([Run (parted_command device_path) None r], table_type_of r))"

subsection \<open>detect\_luks\_encryption\<close>

definition is_crypt_type :: "json \<Rightarrow> py_error + bool" where
  "is_crypt_type entry =
     (case get_py entry ''type'' JNull of
        Inl err \<Rightarrow> Inl err
      | Inr t \<Rightarrow>
          if t = JStr ''crypt'' then Inr True
          else (case get_py entry ''fstype'' JNull of
                  Inl err \<Rightarrow> Inl err
                | Inr f \<Rightarrow> Inr (f = JStr ''crypto_LUKS'')))"

text \<open>The loop over the children; \<open>Inr False\<close> when it ends without a \<open>return\<close>.\<close>

fun any_crypt_child :: "json list \<Rightarrow> py_error + bool" where
  "any_crypt_child [] = Inr False"
| "any_crypt_child (child # rest) =
     (case is_crypt_type child of
        Inl err \<Rightarrow> Inl err
      | Inr b \<Rightarrow> if b then Inr True else any_crypt_child rest)"

text \<open>The body of the \<open>try\<close> after \<open>json.loads\<close>\<close>

definition crypt_in :: "json \<Rightarrow> py_error + bool" where
  "crypt_in data =
     (case item_py data ''blockdevices'' of
        Inl err \<Rightarrow> Inl err
      | Inr bl \<Rightarrow>
     (case first_py bl of
        Inl err \<Rightarrow> Inl err
      | Inr entry \<Rightarrow>
     (case is_crypt_type entry of
        Inl err \<Rightarrow> Inl err
      | Inr b \<Rightarrow>
          if b then Inr True
          else (case get_py entry ''children'' (JList []) of
                  Inl err \<Rightarrow> Inl err
                | Inr ch \<Rightarrow> (case iter_py ch of
                                Inl err \<Rightarrow> Inl err
                              | Inr cs \<Rightarrow> any_crypt_child cs)))))"

definition lsblk_device_command :: "string \<Rightarrow> string list" where
  "lsblk_device_command device_path =
     [''lsblk'', ''--json'', ''-o'', ''NAME,TYPE,FSTYPE'', device_path]"

definition detect_luks_encryption :: "env \<Rightarrow> string \<Rightarrow> event list \<times> bool" where
  "detect_luks_encryption e device_path =
     (let r = run_command e (lsblk_device_command device_path) None True in
      ([Run (lsblk_device_command device_path) None r],
       case r of
         Inl err \<Rightarrow> False
       | Inr out \<Rightarrow>
           (case json_loads e (fst out) of
              Inl err \<Rightarrow> False
            | Inr data \<Rightarrow> (case crypt_in data of Inl err \<Rightarrow> False | Inr b \<Rightarrow> b))))"

subsection \<open>luks\_header\_backup\<close>

text \<open>\<open>os.path.basename\<close>: what follows the last slash\<close>

definition basename :: "string \<Rightarrow> string" where
  "basename p = rev (takeWhile (\<lambda>c. c \<noteq> CHR ''/'') (rev p))"

text \<open>\<open>os.path.join\<close> of two parts\<close>

definition path_join :: "string \<Rightarrow> string \<Rightarrow> string" where
  "path_join a b =
     (if b \<noteq> [] \<and> hd b = CHR ''/'' then b
      else if a = [] \<or> last a = CHR ''/'' then a @ b
      else a @ ''/'' @ b)"

definition header_backup_command :: "string \<Rightarrow> string \<Rightarrow> string list" where
  "header_backup_command device_path backup_file =
     [''cryptsetup'', ''luksHeaderBackup'', device_path, ''--header-backup-file'', backup_file]"

text \<open>The result is the exception that leaves the function, if any: only \<open>os.makedirs\<close>
  is outside the \<open>try\<close>.\<close>

definition luks_header_backup :: "env \<Rightarrow> string \<Rightarrow> event list \<times> py_error option" where
  "luks_header_backup e device_path =
     (let device_base = basename device_path;
          backup_dir = expanduser e ''~/luks_backups''
      in case makedirs e backup_dir of
           Some err \<Rightarrow> ([MakeDirs backup_dir (Some err)], Some err)
         | None \<Rightarrow>
             (let backup_file =
                    path_join backup_dir (device_base @ ''_'' @ timestamp e @ ''.header'');
                  r = run_command e (header_backup_command device_path backup_file) None True
              in ([MakeDirs backup_dir None,
                   Run (header_backup_command device_path backup_file) None r], None)))"

section \<open>main\<close>

definition select_prompt :: string where
  "select_prompt =
     [CHR 0x0A] @ ''Enter the number of the device to encrypt/open (or 'q' to quit): ''"

definition action_prompt :: string where
  "action_prompt =
     ''Do you want to open it (type 'open'), re-encrypt (type 're-encrypt'), or exit (type 'exit')? ''"

definition mapper_prompt :: string where
  "mapper_prompt = ''Enter mapper name (e.g., 'my_encrypted_usb'): ''"

definition mapper_prompt_formatted :: string where
  "mapper_prompt_formatted = ''Enter mapper name to open LUKS volume (e.g., 'my_encrypted_usb'): ''"

definition passphrase_prompt :: string where
  "passphrase_prompt = ''Enter LUKS passphrase: ''"

definition confirm_passphrase_prompt :: string where
  "confirm_passphrase_prompt = ''Confirm LUKS passphrase: ''"

definition reencrypt_text :: string where
  "reencrypt_text = ''I understand and want to re-encrypt this device''"

definition encrypt_text :: string where
  "encrypt_text = ''I understand and want to encrypt this device''"

definition luks_open_command :: "string \<Rightarrow> string \<Rightarrow> string list" where
  "luks_open_command device_path mapper_name =
     [''cryptsetup'', ''luksOpen'', device_path, mapper_name]"

definition luks_format_command :: "string \<Rightarrow> string list" where
  "luks_format_command device_path =
     [''cryptsetup'', ''luksFormat'',
      ''--type'', ''luks2'',
      ''--cipher'', ''aes-xts-plain64'',
      ''--key-size'', ''512'',
      ''--hash'', ''sha512'',
      ''--iter-time'', ''2000'',
      ''--pbkdf'', ''argon2id'',
      device_path]"

text \<open>The device menu (lines 183--196): one line of \<open>stdin\<close> per pass. The result is
  the chosen device and the lines not yet read.\<close>

fun select_device ::
  "device list \<Rightarrow> string list \<Rightarrow> event list \<times> (outcome + device \<times> string list)" where
  "select_device suitable_devices [] = ([InputEOF select_prompt], Inl (Uncaught EOFError))"
| "select_device suitable_devices (l # ls) =
     (let selection = strip l in
      if lower selection = ''q'' then ([Input select_prompt l], Inl (Exit 0))
      else
        (case py_int selection of
           None \<Rightarrow> prepend [Input select_prompt l] (select_device suitable_devices ls)
         | Some n \<Rightarrow>
             (let device_index = n - 1 in
              if 0 \<le> device_index \<and> device_index < int (length suitable_devices)
              then ([Input select_prompt l], Inr (suitable_devices ! nat device_index, ls))
              else prepend [Input select_prompt l] (select_device suitable_devices ls))))"

text \<open>The \<open>open\<close> action of an encrypted device (lines 209--235); every path ends the
  process.\<close>

definition open_encrypted ::
  "env \<Rightarrow> string \<Rightarrow> string list \<Rightarrow> string list \<Rightarrow> event list \<times> outcome" where
  "open_encrypted e device_path inp tty =
     (case inp of
        [] \<Rightarrow> ([InputEOF mapper_prompt], Uncaught EOFError)
      | m # _ \<Rightarrow>
          (let mapper_name = strip m in
           if mapper_name = [] then ([Input mapper_prompt m], Exit 1)
           else if path_exists e (''/dev/mapper/'' @ mapper_name)
           then ([Input mapper_prompt m, PathExists (''/dev/mapper/'' @ mapper_name) True],
                 Exit 1)
           else
             (case tty of
                [] \<Rightarrow> ([Input mapper_prompt m,
                         PathExists (''/dev/mapper/'' @ mapper_name) False,
                         GetPassEOF passphrase_prompt], Uncaught EOFError)
              | passphrase # _ \<Rightarrow>
                  (let r = run_command e (luks_open_command device_path mapper_name)
                             (Some (passphrase @ [CHR 0x0A])) True
                   in ([Input mapper_prompt m,
                        PathExists (''/dev/mapper/'' @ mapper_name) False,
                        GetPass passphrase_prompt passphrase,
                        Run (luks_open_command device_path mapper_name)
                          (Some (passphrase @ [CHR 0x0A])) r],
                       case r of
                         Inr _ \<Rightarrow> Exit 0
                       | Inl (CalledProcessError rc) \<Rightarrow> (if rc = 5 then Exit 1 else Exit 1)
                       | Inl err \<Rightarrow> Uncaught err)))))"

text \<open>The menu of an encrypted device (lines 203--246). \<open>Inr\<close> is the \<open>break\<close> into the
  encryption logic, with the lines not yet read.\<close>

fun encrypted_menu ::
  "env \<Rightarrow> string \<Rightarrow> string list \<Rightarrow> string list \<Rightarrow>
     event list \<times> (outcome + string list \<times> string list)" where
  "encrypted_menu e device_path [] tty = ([InputEOF action_prompt], Inl (Uncaught EOFError))"
| "encrypted_menu e device_path (l # ls) tty =
     (let action = lower (strip l) in
      if action = ''exit'' then ([Input action_prompt l], Inl (Exit 0))
      else if action = ''open'' then
        (let r = open_encrypted e device_path ls tty
         in (Input action_prompt l # fst r, Inl (snd r)))
      else if action = ''re-encrypt'' then
        (case ls of
           [] \<Rightarrow> ([Input action_prompt l, InputEOF ''> ''], Inl (Uncaught EOFError))
         | c # cs \<Rightarrow>
             if strip c \<noteq> reencrypt_text
             then ([Input action_prompt l, Input ''> '' c], Inl (Exit 0))
             else ([Input action_prompt l, Input ''> '' c], Inr (cs, tty)))
      else prepend [Input action_prompt l] (encrypted_menu e device_path ls tty))"

text \<open>The passphrase loop (lines 263--271): two reads of the terminal per pass. The
  result is \<open>passphrase1\<close>.\<close>

fun collect_passphrase :: "string list \<Rightarrow> event list \<times> (outcome + string)" where
  "collect_passphrase [] = ([GetPassEOF passphrase_prompt], Inl (Uncaught EOFError))"
| "collect_passphrase [passphrase1] =
     ([GetPass passphrase_prompt passphrase1, GetPassEOF confirm_passphrase_prompt],
      Inl (Uncaught EOFError))"
| "collect_passphrase (passphrase1 # passphrase2 # rest) =
     (if passphrase1 \<noteq> passphrase2
      then prepend [GetPass passphrase_prompt passphrase1,
                    GetPass confirm_passphrase_prompt passphrase2] (collect_passphrase rest)
      else if length passphrase1 < 8
      then prepend [GetPass passphrase_prompt passphrase1,
                    GetPass confirm_passphrase_prompt passphrase2] (collect_passphrase rest)
      else ([GetPass passphrase_prompt passphrase1,
             GetPass confirm_passphrase_prompt passphrase2], Inr passphrase1))"

text \<open>The opening of the new volume (lines 293--314), with the passphrase of the
  format.\<close>

definition open_formatted ::
  "env \<Rightarrow> string \<Rightarrow> string \<Rightarrow> string list \<Rightarrow> event list \<times> outcome" where
  "open_formatted e device_path passphrase1 inp =
     (case inp of
        [] \<Rightarrow> ([InputEOF mapper_prompt_formatted], Uncaught EOFError)
      | m # _ \<Rightarrow>
          (let mapper_name = strip m in
           if mapper_name = [] then ([Input mapper_prompt_formatted m], Exit 1)
           else if path_exists e (''/dev/mapper/'' @ mapper_name)
           then ([Input mapper_prompt_formatted m,
                  PathExists (''/dev/mapper/'' @ mapper_name) True], Exit 1)
           else
             (let r = run_command e (luks_open_command device_path mapper_name)
                        (Some (passphrase1 @ [CHR 0x0A])) True
              in ([Input mapper_prompt_formatted m,
                   PathExists (''/dev/mapper/'' @ mapper_name) False,
                   Run (luks_open_command device_path mapper_name)
                     (Some (passphrase1 @ [CHR 0x0A])) r],
                  case r of Inl err \<Rightarrow> Exit 1 | Inr _ \<Rightarrow> Returned))))"

definition format_input :: "string \<Rightarrow> string" where
  "format_input passphrase1 =
     ''YES'' @ [CHR 0x0A] @ passphrase1 @ [CHR 0x0A] @ passphrase1 @ [CHR 0x0A]"

text \<open>From the passphrase loop to the end (lines 263--316)\<close>

definition format_and_open ::
  "env \<Rightarrow> string \<Rightarrow> string list \<Rightarrow> string list \<Rightarrow> event list \<times> outcome" where
  "format_and_open e device_path inp tty =
     (let c = collect_passphrase tty in
      case snd c of
        Inl out \<Rightarrow> (fst c, out)
      | Inr passphrase1 \<Rightarrow>
          (let r = run_command e (luks_format_command device_path)
                     (Some (format_input passphrase1)) True
           in prepend
                (fst c @ [Run (luks_format_command device_path)
                            (Some (format_input passphrase1)) r])
                (case r of
                   Inl err \<Rightarrow> ([], Exit 1)
                 | Inr _ \<Rightarrow>
                     (let b = luks_header_backup e device_path in
                      case snd b of
                        Some err \<Rightarrow> (fst b, Uncaught err)
                      | None \<Rightarrow>
                          prepend (fst b)
                            (open_formatted e device_path passphrase1 inp)))))"

text \<open>The encryption logic (lines 249--316), reached for a device not detected as LUKS
  and after the re-encrypt confirmation.\<close>

definition encrypt_device ::
  "env \<Rightarrow> string \<Rightarrow> string list \<Rightarrow> string list \<Rightarrow> event list \<times> outcome" where
  "encrypt_device e device_path inp tty =
     (let p = get_partition_table_type e device_path; pt_type = snd p in
      if pt_type \<noteq> ''gpt'' then (fst p, Exit 1)
      else
        prepend (fst p)
          (case inp of
             [] \<Rightarrow> ([InputEOF ''> ''], Uncaught EOFError)
           | c # cs \<Rightarrow>
               if strip c \<noteq> encrypt_text then ([Input ''> '' c], Exit 0)
               else prepend [Input ''> '' c] (format_and_open e device_path cs tty)))"

text \<open>After the device is chosen (lines 198--316)\<close>

definition handle_device ::
  "env \<Rightarrow> string \<Rightarrow> string list \<Rightarrow> string list \<Rightarrow> event list \<times> outcome" where
  "handle_device e device_path inp tty =
     (let d = detect_luks_encryption e device_path in
      if snd d then
        (let m = encrypted_menu e device_path inp tty in
         case snd m of
           Inl out \<Rightarrow> (fst d @ fst m, out)
         | Inr rest \<Rightarrow>
             prepend (fst d @ fst m) (encrypt_device e device_path (fst rest) (snd rest)))
      else prepend (fst d) (encrypt_device e device_path inp tty))"

text \<open>\<open>main\<close>, given the lines \<open>input\<close> will read and the lines \<open>getpass\<close> will read\<close>

definition main :: "env \<Rightarrow> string list \<Rightarrow> string list \<Rightarrow> event list \<times> outcome" where
  "main e inp tty =
     (if geteuid e \<noteq> 0 then ([], Exit 1)
      else
        (let g = get_block_devices e in
         case snd g of
           Inl out \<Rightarrow> (fst g, out)
         | Inr suitable_devices \<Rightarrow>
             if suitable_devices = [] then (fst g, Exit 0)
             else
               (let s = select_device suitable_devices inp in
                case snd s of
                  Inl out \<Rightarrow> (fst g @ fst s, out)
                | Inr sel \<Rightarrow>
                    prepend (fst g @ fst s)
                      (handle_device e (name (fst sel)) (snd sel) tty))))"

section \<open>Observations on a run\<close>

text \<open>The commands that only read: both \<open>lsblk --json\<close> listings and
  \<open>parted -s \<dots> print\<close>.\<close>

definition query_command :: "string list \<Rightarrow> bool" where
  "query_command c =
     (take 2 c = [''lsblk'', ''--json''] \<or>
      (case c of
         [p, s, d, pr] \<Rightarrow> p = ''parted'' \<and> s = ''-s'' \<and> pr = ''print''
       | _ \<Rightarrow> False))"

text \<open>An event that may change something outside the process: any other command, and
  \<open>os.makedirs\<close>.\<close>

definition mutates :: "event \<Rightarrow> bool" where
  "mutates ev =
     (case ev of
        Run c _ _ \<Rightarrow> \<not> query_command c
      | MakeDirs _ _ \<Rightarrow> True
      | _ \<Rightarrow> False)"

definition is_format :: "event \<Rightarrow> bool" where
  "is_format ev =
     (case ev of Run c _ _ \<Rightarrow> take 2 c = [''cryptsetup'', ''luksFormat''] | _ \<Rightarrow> False)"

definition is_luks_open :: "event \<Rightarrow> bool" where
  "is_luks_open ev =
     (case ev of Run c _ _ \<Rightarrow> take 2 c = [''cryptsetup'', ''luksOpen''] | _ \<Rightarrow> False)"

text \<open>A read of the first passphrase prompt of the loop, answered or not\<close>

definition asks_passphrase :: "event \<Rightarrow> bool" where
  "asks_passphrase ev =
     (case ev of
        GetPass p _ \<Rightarrow> p = passphrase_prompt
      | GetPassEOF p \<Rightarrow> p = passphrase_prompt
      | _ \<Rightarrow> False)"

text \<open>The events that come before the menu of an encrypted device is left and before
  the partition check: the two \<open>lsblk\<close> listings, the reads of the device menu and
  of the action menu, and the accepted re-encrypt confirmation.\<close>

definition prelude :: "event \<Rightarrow> bool" where
  "prelude ev =
     (case ev of
        Run c _ _ \<Rightarrow> take 2 c = [''lsblk'', ''--json'']
      | Input p l \<Rightarrow>
          p = select_prompt \<or> p = action_prompt \<or> (p = ''> '' \<and> strip l = reencrypt_text)
      | InputEOF p \<Rightarrow> p = select_prompt \<or> p = action_prompt
      | _ \<Rightarrow> False)"

text \<open>An entry of a listing that has type \<open>crypt\<close> or filesystem type
  \<open>crypto_LUKS\<close>, in the words of the specification\<close>

definition crypt_entry :: "(string \<times> json) list \<Rightarrow> bool" where
  "crypt_entry kvs =
     (map_of kvs ''type'' = Some (JStr ''crypt'') \<or>
      map_of kvs ''fstype'' = Some (JStr ''crypto_LUKS''))"

section \<open>A sample machine\<close>

text \<open>
  One internal disk, one NVMe disk and one removable stick \<open>/dev/sdb\<close>. The stick is
  reported with or without a LUKS header, \<open>parted\<close> prints the given table name, every
  other command succeeds, and one mapper name is already taken.
\<close>

definition sample_listing :: json where
  "sample_listing = JObj [(''blockdevices'', JList
     [JObj [(''name'', JStr ''sda''), (''size'', JStr ''500G''), (''type'', JStr ''disk''),
            (''model'', JStr ''Internal ''), (''vendor'', JStr ''ATA ''),
            (''rm'', JBool False)],
      JObj [(''name'', JStr ''nvme0n1''), (''type'', JStr ''disk''), (''rm'', JBool True)],
      JObj [(''name'', JStr ''sdb''), (''size'', JStr ''16G''), (''type'', JStr ''disk''),
            (''model'', JStr ''Stick ''), (''vendor'', JStr ''Acme ''), (''rm'', JBool True),
            (''children'', JList [JObj [(''name'', JStr ''sdb1''), (''type'', JStr ''part''),
                                        (''mountpoint'', JNull)]])]])]"

definition sample_plain :: json where
  "sample_plain = JObj [(''blockdevices'', JList
     [JObj [(''name'', JStr ''sdb''), (''type'', JStr ''disk''), (''fstype'', JNull),
            (''children'', JList [JObj [(''name'', JStr ''sdb1''), (''type'', JStr ''part''),
                                        (''fstype'', JStr ''vfat'')]])]])]"

definition sample_luks :: json where
  "sample_luks = JObj [(''blockdevices'', JList
     [JObj [(''name'', JStr ''sdb''), (''type'', JStr ''disk''), (''fstype'', JNull),
            (''children'', JList [JObj [(''name'', JStr ''sdb1''), (''type'', JStr ''part''),
                                        (''fstype'', JStr ''crypto_LUKS'')]])]])]"

definition sample_env :: "nat \<Rightarrow> bool \<Rightarrow> string \<Rightarrow> env" where
  "sample_env uid encrypted table =
     \<lparr>geteuid = uid,
      spawn = (\<lambda>command input_data.
        if command = lsblk_list_command
        then Inr \<lparr>returncode = 0, stdout = ''listing'', stderr = []\<rparr>
        else if command = lsblk_device_command ''/dev/sdb''
        then Inr \<lparr>returncode = 0, stdout = (if encrypted then ''luks'' else ''plain''),
                  stderr = []\<rparr>
        else if command = parted_command ''/dev/sdb''
        then Inr \<lparr>returncode = 0,
                  stdout = ''Model: Acme Stick (scsi)'' @ [CHR 0x0A] @
                           ''Partition Table: '' @ table @ [CHR 0x0A],
                  stderr = []\<rparr>
        else Inr \<lparr>returncode = 0, stdout = [], stderr = []\<rparr>),
      json_loads = (\<lambda>s. if s = ''listing'' then Inr sample_listing
                         else if s = ''plain'' then Inr sample_plain
                         else if s = ''luks'' then Inr sample_luks
                         else Inl JSONDecodeError),
      path_exists = (\<lambda>p. p = ''/dev/mapper/taken''),
      expanduser = (\<lambda>p. ''/root'' @ tl p),
      makedirs = (\<lambda>p. None),
      timestamp = ''20240101_120000''\<rparr>"

text \<open>
  The same machine with an \<open>lsblk\<close> that prints every JSON value as text, as older
  releases of util-linux do: the \<open>rm\<close> value of the internal disk is the text \<open>0\<close>,
  that of the stick the text \<open>1\<close>.
\<close>

definition internal_disk :: "json \<Rightarrow> json" where
  "internal_disk rm =
     JObj [(''name'', JStr ''sda''), (''size'', JStr ''500G''), (''type'', JStr ''disk''),
           (''model'', JStr ''Internal ''), (''vendor'', JStr ''ATA ''),
           (''mountpoint'', JNull), (''rm'', rm)]"

definition text_listing :: json where
  "text_listing = JObj [(''blockdevices'', JList
     [internal_disk (JStr ''0''),
      JObj [(''name'', JStr ''sdb''), (''size'', JStr ''16G''), (''type'', JStr ''disk''),
            (''model'', JStr ''Stick ''), (''vendor'', JStr ''Acme ''),
            (''mountpoint'', JNull), (''rm'', JStr ''1'')]])]"

definition text_env :: env where
  "text_env =
     (sample_env 0 False ''gpt'')
       \<lparr>json_loads := (\<lambda>s. if s = ''listing'' then Inr text_listing
                                else Inl JSONDecodeError)\<rparr>"

section \<open>The shape of a run\<close>

subsection \<open>The passphrase loop\<close>

lemma collect_passphrase_accepted:
  "collect_passphrase tty = (tr, Inr p) \<Longrightarrow>
     8 \<le> length p \<and>
     (\<exists>pre. tr = pre @ [GetPass passphrase_prompt p, GetPass confirm_passphrase_prompt p]) \<and>
     (\<forall>x\<in>set tr. \<exists>q s. x = GetPass q s)"
proof (induction tty arbitrary: tr rule: collect_passphrase.induct)
  case 1
  then show ?case by simp
next
  case (2 passphrase1)
  then show ?case by simp
next
  case (3 passphrase1 passphrase2 rest)
  show ?case
  proof (cases "passphrase1 = passphrase2 \<and> 8 \<le> length passphrase1")
    case True
    with "3.prems" show ?thesis by auto
  next
    case False
    obtain tr' r' where c: "collect_passphrase rest = (tr', r')"
      by (cases "collect_passphrase rest")
    from False "3.prems" c have eq:
      "tr = [GetPass passphrase_prompt passphrase1,
             GetPass confirm_passphrase_prompt passphrase2] @ tr'" "r' = Inr p"
      by (auto simp: prepend_def split: if_splits)
    from False have "passphrase1 \<noteq> passphrase2 \<or> (passphrase1 = passphrase2 \<and> length passphrase1 < 8)"
      by auto
    then have ih: "8 \<le> length p \<and>
       (\<exists>pre. tr' = pre @ [GetPass passphrase_prompt p, GetPass confirm_passphrase_prompt p]) \<and>
       (\<forall>x\<in>set tr'. \<exists>q s. x = GetPass q s)"
      using "3.IH"(1)[of tr'] "3.IH"(2)[of tr'] c eq(2) by auto
    then obtain pre where "tr' = pre @ [GetPass passphrase_prompt p, GetPass confirm_passphrase_prompt p]"
      by blast
    then have "tr = ([GetPass passphrase_prompt passphrase1,
             GetPass confirm_passphrase_prompt passphrase2] @ pre) @ [GetPass passphrase_prompt p, GetPass confirm_passphrase_prompt p]"
      using eq(1) by simp
    then have ex: "\<exists>pre. tr = pre @ [GetPass passphrase_prompt p, GetPass confirm_passphrase_prompt p]"
      by (rule exI)
    have all: "\<forall>x\<in>set tr. \<exists>q s. x = GetPass q s"
      using ih eq(1) by simp
    from ih ex all show ?thesis by simp
  qed
qed

lemma collect_passphrase_stopped:
  "collect_passphrase tty = (tr, Inl out) \<Longrightarrow>
     out = Uncaught EOFError \<and> (\<forall>x\<in>set tr. (\<exists>q s. x = GetPass q s) \<or> (\<exists>q. x = GetPassEOF q))"
proof (induction tty arbitrary: tr rule: collect_passphrase.induct)
  case 1
  then show ?case by auto
next
  case (2 passphrase1)
  then show ?case by auto
next
  case (3 passphrase1 passphrase2 rest)
  obtain tr' r' where c: "collect_passphrase rest = (tr', r')"
    by (cases "collect_passphrase rest")
  from "3.prems" c have eq:
      "tr = [GetPass passphrase_prompt passphrase1,
             GetPass confirm_passphrase_prompt passphrase2] @ tr'" "r' = Inl out"
      and ne: "passphrase1 \<noteq> passphrase2 \<or> (passphrase1 = passphrase2 \<and> length passphrase1 < 8)"
    by (auto simp: prepend_def split: if_splits)
  from ne have "out = Uncaught EOFError \<and> (\<forall>x\<in>set tr'. (\<exists>q s. x = GetPass q s) \<or> (\<exists>q. x = GetPassEOF q))"
    using "3.IH"(1)[of tr'] "3.IH"(2)[of tr'] c eq(2) by auto
  then show ?case using eq(1) by auto
qed

subsection \<open>The phases before the encryption logic\<close>

lemma prelude_simps [simp]:
  "prelude (Run c i r) = (take 2 c = [''lsblk'', ''--json''])"
  "prelude (Input p l) =
     (p = select_prompt \<or> p = action_prompt \<or> (p = ''> '' \<and> strip l = reencrypt_text))"
  "prelude (InputEOF p) = (p = select_prompt \<or> p = action_prompt)"
  "\<not> prelude (GetPass p l)" "\<not> prelude (GetPassEOF p)"
  "\<not> prelude (PathExists q b)" "\<not> prelude (MakeDirs q x)"
  by (simp_all add: prelude_def)

lemma get_block_devices_trace:
  "fst (get_block_devices e) =
     [Run lsblk_list_command None (run_command e lsblk_list_command None True)]"
  by (simp add: get_block_devices_def Let_def)

lemma get_block_devices_stop:
  "snd (get_block_devices e) = Inl out \<Longrightarrow> out = Exit 1 \<or> (\<exists>err. out = Uncaught err)"
  by (auto simp: get_block_devices_def Let_def split: sum.splits)

lemma detect_trace:
  "fst (detect_luks_encryption e dev) =
     [Run (lsblk_device_command dev) None (run_command e (lsblk_device_command dev) None True)]"
  by (simp add: detect_luks_encryption_def Let_def)

lemma partition_trace:
  "fst (get_partition_table_type e dev) =
     [Run (parted_command dev) None (run_command e (parted_command dev) None False)]"
  "snd (get_partition_table_type e dev) =
     table_type_of (run_command e (parted_command dev) None False)"
  by (simp_all add: get_partition_table_type_def Let_def)

lemma select_device_shape:
  "select_device devs inp = (tr, r) \<Longrightarrow>
     (\<forall>x\<in>set tr. prelude x) \<and>
     (case r of
        Inl out \<Rightarrow> out = Exit 0 \<or> out = Uncaught EOFError
      | Inr sel \<Rightarrow> fst sel \<in> set devs)"
proof (induction inp arbitrary: tr r)
  case Nil
  then show ?case by auto
next
  case (Cons l ls)
  obtain tr' r' where s: "select_device devs ls = (tr', r')"
    by (cases "select_device devs ls")
  have ih: "(\<forall>x\<in>set tr'. prelude x) \<and>
     (case r' of Inl out \<Rightarrow> out = Exit 0 \<or> out = Uncaught EOFError
      | Inr sel \<Rightarrow> fst sel \<in> set devs)"
    using Cons.IH [OF s] .
  from Cons.prems s consider
      (quit) "tr = [Input select_prompt l]" "r = Inl (Exit 0)"
    | (pick) n where "tr = [Input select_prompt l]" "r = Inr (devs ! nat (n - 1), ls)"
        "0 \<le> n - 1" "n - 1 < int (length devs)"
    | (again) "tr = Input select_prompt l # tr'" "r = r'"
    by (auto simp: Let_def prepend_def split: if_splits option.splits)
  then show ?case
  proof cases
    case quit
    then show ?thesis by simp
  next
    case (pick n)
    then have "nat (n - 1) < length devs" by linarith
    with pick show ?thesis by simp
  next
    case again
    with ih show ?thesis by simp
  qed
qed

lemma encrypted_menu_shape:
  "encrypted_menu e dev inp tty = (tr, r) \<Longrightarrow>
     ((\<forall>x\<in>set tr. prelude x) \<and> (r = Inl (Exit 0) \<or> r = Inl (Uncaught EOFError)))
   \<or> (\<exists>pre ls. (\<forall>x\<in>set pre. prelude x) \<and>
         tr = pre @ fst (open_encrypted e dev ls tty) \<and>
         r = Inl (snd (open_encrypted e dev ls tty)))
   \<or> (\<exists>pre. (\<forall>x\<in>set pre. prelude x) \<and> tr = pre @ [InputEOF ''> ''] \<and>
         r = Inl (Uncaught EOFError))
   \<or> (\<exists>pre a c. (\<forall>x\<in>set pre. prelude x) \<and>
         tr = pre @ [Input action_prompt a, Input ''> '' c] \<and>
         strip c \<noteq> reencrypt_text \<and> r = Inl (Exit 0))
   \<or> ((\<forall>x\<in>set tr. prelude x) \<and> (\<exists>cs. r = Inr (cs, tty)))"
  (is "_ \<Longrightarrow> ?A tr r \<or> ?B tr r \<or> ?C tr r \<or> ?D tr r \<or> ?E tr r")
proof (induction inp arbitrary: tr r)
  case Nil
  then have "?A tr r" by auto
  then show ?case by blast
next
  case (Cons l ls)
  obtain tr' r' where s: "encrypted_menu e dev ls tty = (tr', r')"
    by (cases "encrypted_menu e dev ls tty")
  have ih: "?A tr' r' \<or> ?B tr' r' \<or> ?C tr' r' \<or> ?D tr' r' \<or> ?E tr' r'"
    using Cons.IH [OF s] .
  let ?i = "Input action_prompt l"
  from Cons.prems s consider
      (exit) "tr = [?i]" "r = Inl (Exit 0)"
    | (opn) "tr = [?i] @ fst (open_encrypted e dev ls tty)"
        "r = Inl (snd (open_encrypted e dev ls tty))"
    | (eof) "tr = [?i] @ [InputEOF ''> '']" "r = Inl (Uncaught EOFError)"
    | (no) c where "tr = [] @ [?i, Input ''> '' c]" "strip c \<noteq> reencrypt_text" "r = Inl (Exit 0)"
    | (yes) c cs where "tr = [] @ [?i, Input ''> '' c]" "strip c = reencrypt_text" "r = Inr (cs, tty)"
    | (again) "tr = ?i # tr'" "r = r'"
    by (auto simp: Let_def prepend_def split: if_splits list.splits)
  then show ?case
  proof cases
    case exit
    then have "?A tr r" by simp
    then show ?thesis by blast
  next
    case opn
    have "\<forall>x\<in>set [?i]. prelude x" by simp
    with opn have "?B tr r" by blast
    then show ?thesis by blast
  next
    case eof
    have "\<forall>x\<in>set [?i]. prelude x" by simp
    with eof have "?C tr r" by blast
    then show ?thesis by blast
  next
    case (no c)
    have "\<forall>x\<in>set ([]::event list). prelude x" by simp
    with no have "?D tr r" by blast
    then show ?thesis by blast
  next
    case (yes c cs)
    have "\<forall>x\<in>set ([]::event list). prelude x" by simp
    with yes have "?E tr r" by simp
    then show ?thesis by blast
  next
    case again
    from ih consider (A) "?A tr' r'" | (B) "?B tr' r'" | (C) "?C tr' r'"
      | (D) "?D tr' r'" | (E) "?E tr' r'"
      by blast
    then show ?thesis
    proof cases
      case A
      with again have "?A tr r" by simp
      then show ?thesis by blast
    next
      case B
      then obtain pre ls' where a: "\<forall>x\<in>set pre. prelude x"
        "tr' = pre @ fst (open_encrypted e dev ls' tty)"
        "r' = Inl (snd (open_encrypted e dev ls' tty))"
        by blast
      then have "\<forall>x\<in>set (?i # pre). prelude x"
        "tr = (?i # pre) @ fst (open_encrypted e dev ls' tty)"
        "r = Inl (snd (open_encrypted e dev ls' tty))"
        using again by simp_all
      then have "?B tr r" by blast
      then show ?thesis by blast
    next
      case C
      then obtain pre where a: "\<forall>x\<in>set pre. prelude x" "tr' = pre @ [InputEOF ''> '']"
        "r' = Inl (Uncaught EOFError)"
        by blast
      then have "\<forall>x\<in>set (?i # pre). prelude x"
        "tr = (?i # pre) @ [InputEOF ''> '']" "r = Inl (Uncaught EOFError)"
        using again by simp_all
      then have "?C tr r" by blast
      then show ?thesis by blast
    next
      case D
      then obtain pre a c where a: "\<forall>x\<in>set pre. prelude x"
        "tr' = pre @ [Input action_prompt a, Input ''> '' c]"
        "strip c \<noteq> reencrypt_text" "r' = Inl (Exit 0)"
        by blast
      then have "\<forall>x\<in>set (?i # pre). prelude x"
        "tr = (?i # pre) @ [Input action_prompt a, Input ''> '' c]"
        "strip c \<noteq> reencrypt_text" "r = Inl (Exit 0)"
        using again by simp_all
      then have "?D tr r" by blast
      then show ?thesis by blast
    next
      case E
      with again have "?E tr r" by simp
      then show ?thesis by blast
    qed
  qed
qed


lemma handle_device_shape:
  "handle_device e dev inp tty = (tr, out) \<Longrightarrow>
     ((\<forall>x\<in>set tr. prelude x) \<and> (out = Exit 0 \<or> out = Uncaught EOFError))
   \<or> (\<exists>pre ls. (\<forall>x\<in>set pre. prelude x) \<and>
         tr = pre @ fst (open_encrypted e dev ls tty) \<and>
         out = snd (open_encrypted e dev ls tty))
   \<or> (\<exists>pre. (\<forall>x\<in>set pre. prelude x) \<and> tr = pre @ [InputEOF ''> ''] \<and>
         out = Uncaught EOFError)
   \<or> (\<exists>pre a c. (\<forall>x\<in>set pre. prelude x) \<and>
         tr = pre @ [Input action_prompt a, Input ''> '' c] \<and>
         strip c \<noteq> reencrypt_text \<and> out = Exit 0)
   \<or> (\<exists>pre ls. (\<forall>x\<in>set pre. prelude x) \<and>
         tr = pre @ fst (encrypt_device e dev ls tty) \<and>
         out = snd (encrypt_device e dev ls tty))"
  (is "_ \<Longrightarrow> ?A tr out \<or> ?B tr out \<or> ?C tr out \<or> ?D tr out \<or> ?E tr out")
proof -
  assume h: "handle_device e dev inp tty = (tr, out)"
  let ?d = "Run (lsblk_device_command dev) None
              (run_command e (lsblk_device_command dev) None True)"
  have pd: "prelude ?d" by (simp add: lsblk_device_command_def)
  show ?thesis
  proof (cases "snd (detect_luks_encryption e dev)")
    case False
    with h have "tr = [?d] @ fst (encrypt_device e dev inp tty)"
      "out = snd (encrypt_device e dev inp tty)"
      by (simp_all add: handle_device_def Let_def prepend_def detect_trace)
    moreover have "\<forall>x\<in>set [?d]. prelude x" using pd by simp
    ultimately have "?E tr out" by blast
    then show ?thesis by blast
  next
    case True
    obtain mt mr where m: "encrypted_menu e dev inp tty = (mt, mr)"
      by (cases "encrypted_menu e dev inp tty")
    show ?thesis
    proof (cases mr)
      case (Inr rest)
      from encrypted_menu_shape [OF m] Inr have
        mp: "\<forall>x\<in>set mt. prelude x" and rr: "snd rest = tty"
        by auto
      from h True m Inr rr have "tr = ([?d] @ mt) @ fst (encrypt_device e dev (fst rest) tty)"
        "out = snd (encrypt_device e dev (fst rest) tty)"
        by (simp_all add: handle_device_def Let_def prepend_def detect_trace)
      moreover have "\<forall>x\<in>set ([?d] @ mt). prelude x" using pd mp by simp
      ultimately have "?E tr out" by blast
      then show ?thesis by blast
    next
      case (Inl o')
      from h True m Inl have eq: "tr = ?d # mt" "out = o'"
        by (simp_all add: handle_device_def Let_def detect_trace)
      from encrypted_menu_shape [OF m] Inl consider
          (A) "\<forall>x\<in>set mt. prelude x" "o' = Exit 0 \<or> o' = Uncaught EOFError"
        | (B) pre ls where "\<forall>x\<in>set pre. prelude x"
            "mt = pre @ fst (open_encrypted e dev ls tty)"
            "o' = snd (open_encrypted e dev ls tty)"
        | (C) pre where "\<forall>x\<in>set pre. prelude x" "mt = pre @ [InputEOF ''> '']"
            "o' = Uncaught EOFError"
        | (D) pre a c where "\<forall>x\<in>set pre. prelude x"
            "mt = pre @ [Input action_prompt a, Input ''> '' c]"
            "strip c \<noteq> reencrypt_text" "o' = Exit 0"
        by auto
      then show ?thesis
      proof cases
        case A
        with eq pd have "?A tr out" by simp
        then show ?thesis by blast
      next
        case B
        with eq pd have "\<forall>x\<in>set (?d # pre). prelude x"
          "tr = (?d # pre) @ fst (open_encrypted e dev ls tty)"
          "out = snd (open_encrypted e dev ls tty)"
          by simp_all
        then have "?B tr out" by blast
        then show ?thesis by blast
      next
        case C
        with eq pd have "\<forall>x\<in>set (?d # pre). prelude x"
          "tr = (?d # pre) @ [InputEOF ''> '']" "out = Uncaught EOFError"
          by simp_all
        then have "?C tr out" by blast
        then show ?thesis by blast
      next
        case D
        with eq pd have "\<forall>x\<in>set (?d # pre). prelude x"
          "tr = (?d # pre) @ [Input action_prompt a, Input ''> '' c]"
          "strip c \<noteq> reencrypt_text" "out = Exit 0"
          by simp_all
        then have "?D tr out" by blast
        then show ?thesis by blast
      qed
    qed
  qed
qed

lemma main_shape:
  "main e inp tty = (tr, out) \<Longrightarrow>
     (geteuid e \<noteq> 0 \<and> tr = [] \<and> out = Exit 1)
   \<or> ((\<forall>x\<in>set tr. prelude x) \<and>
         (out = Exit 0 \<or> out = Exit 1 \<or> (\<exists>err. out = Uncaught err)))
   \<or> (\<exists>pre dev ls. (\<forall>x\<in>set pre. prelude x) \<and>
         tr = pre @ fst (open_encrypted e dev ls tty) \<and>
         out = snd (open_encrypted e dev ls tty))
   \<or> (\<exists>pre. (\<forall>x\<in>set pre. prelude x) \<and> tr = pre @ [InputEOF ''> ''] \<and>
         out = Uncaught EOFError)
   \<or> (\<exists>pre a c. (\<forall>x\<in>set pre. prelude x) \<and>
         tr = pre @ [Input action_prompt a, Input ''> '' c] \<and>
         strip c \<noteq> reencrypt_text \<and> out = Exit 0)
   \<or> (\<exists>pre dev ls. (\<forall>x\<in>set pre. prelude x) \<and>
         tr = pre @ fst (encrypt_device e dev ls tty) \<and>
         out = snd (encrypt_device e dev ls tty))"
  (is "_ \<Longrightarrow> ?R \<or> ?A tr out \<or> ?B tr out \<or> ?C tr out \<or> ?D tr out \<or> ?E tr out")
proof -
  assume h: "main e inp tty = (tr, out)"
  let ?g = "Run lsblk_list_command None (run_command e lsblk_list_command None True)"
  have pg: "prelude ?g" by (simp add: lsblk_list_command_def)
  show ?thesis
  proof (cases "geteuid e = 0")
    case False
    with h have ?R by (simp add: main_def)
    then show ?thesis by blast
  next
    case root: True
    show ?thesis
    proof (cases "snd (get_block_devices e)")
      case (Inl o')
      with h root have "tr = [?g]" "out = o'"
        by (simp_all add: main_def Let_def get_block_devices_trace)
      with pg get_block_devices_stop [OF Inl] have "?A tr out" by auto
      then show ?thesis by blast
    next
      case (Inr devs)
      show ?thesis
      proof (cases "devs = []")
        case True
        with h root Inr have "tr = [?g]" "out = Exit 0"
          by (simp_all add: main_def Let_def get_block_devices_trace)
        with pg have "?A tr out" by simp
        then show ?thesis by blast
      next
        case False
        obtain st sr where s: "select_device devs inp = (st, sr)"
          by (cases "select_device devs inp")
        from select_device_shape [OF s] have sp: "\<forall>x\<in>set st. prelude x" by simp
        show ?thesis
        proof (cases sr)
          case (Inl o')
          with h root Inr False s have "tr = ?g # st" "out = o'"
            by (simp_all add: main_def Let_def get_block_devices_trace)
          moreover from select_device_shape [OF s] Inl
          have "o' = Exit 0 \<or> o' = Uncaught EOFError" by simp
          ultimately have "?A tr out" using pg sp by auto
          then show ?thesis by blast
        next
          case (Inr sel)
          let ?dev = "name (fst sel)"
          obtain ht ho where hd: "handle_device e ?dev (snd sel) tty = (ht, ho)"
            by (cases "handle_device e ?dev (snd sel) tty")
          from h root \<open>snd (get_block_devices e) = Inr devs\<close> False s Inr hd
          have eq: "tr = (?g # st) @ ht" "out = ho"
            by (simp_all add: main_def Let_def prepend_def get_block_devices_trace)
          have pp: "\<forall>x\<in>set (?g # st). prelude x" using pg sp by simp
          from handle_device_shape [OF hd] consider
              (A) "\<forall>x\<in>set ht. prelude x" "ho = Exit 0 \<or> ho = Uncaught EOFError"
            | (B) pre ls where "\<forall>x\<in>set pre. prelude x"
                "ht = pre @ fst (open_encrypted e ?dev ls tty)"
                "ho = snd (open_encrypted e ?dev ls tty)"
            | (C) pre where "\<forall>x\<in>set pre. prelude x" "ht = pre @ [InputEOF ''> '']"
                "ho = Uncaught EOFError"
            | (D) pre a c where "\<forall>x\<in>set pre. prelude x"
                "ht = pre @ [Input action_prompt a, Input ''> '' c]"
                "strip c \<noteq> reencrypt_text" "ho = Exit 0"
            | (E) pre ls where "\<forall>x\<in>set pre. prelude x"
                "ht = pre @ fst (encrypt_device e ?dev ls tty)"
                "ho = snd (encrypt_device e ?dev ls tty)"
            by blast
          then show ?thesis
          proof cases
            case A
            with eq pp have "?A tr out" by auto
            then show ?thesis by blast
          next
            case B
            with eq pp have "\<forall>x\<in>set ((?g # st) @ pre). prelude x"
              "tr = ((?g # st) @ pre) @ fst (open_encrypted e ?dev ls tty)"
              "out = snd (open_encrypted e ?dev ls tty)"
              by auto
            then have "?B tr out" by blast
            then show ?thesis by blast
          next
            case C
            with eq pp have "\<forall>x\<in>set ((?g # st) @ pre). prelude x"
              "tr = ((?g # st) @ pre) @ [InputEOF ''> '']" "out = Uncaught EOFError"
              by auto
            then have "?C tr out" by blast
            then show ?thesis by blast
          next
            case D
            with eq pp have "\<forall>x\<in>set ((?g # st) @ pre). prelude x"
              "tr = ((?g # st) @ pre) @ [Input action_prompt a, Input ''> '' c]"
              "strip c \<noteq> reencrypt_text" "out = Exit 0"
              by auto
            then have "?D tr out" by blast
            then show ?thesis by blast
          next
            case E
            with eq pp have "\<forall>x\<in>set ((?g # st) @ pre). prelude x"
              "tr = ((?g # st) @ pre) @ fst (encrypt_device e ?dev ls tty)"
              "out = snd (encrypt_device e ?dev ls tty)"
              by auto
            then have "?E tr out" by blast
            then show ?thesis by blast
          qed
        qed
      qed
    qed
  qed
qed

subsection \<open>The encryption logic\<close>

lemma split_after_prefix:
  "A @ B = pre @ ev # post \<Longrightarrow> \<forall>x\<in>set A. \<not> P x \<Longrightarrow> P ev \<Longrightarrow>
     \<exists>pre'. pre = A @ pre' \<and> B = pre' @ ev # post"
proof (induction A arbitrary: pre)
  case Nil
  then show ?case by simp
next
  case (Cons a A)
  show ?case
  proof (cases pre)
    case Nil
    with Cons.prems show ?thesis by auto
  next
    case (Cons b pre0)
    with Cons.prems have "A @ B = pre0 @ ev # post" "b = a" by auto
    with Cons.IH [of pre0] Cons.prems obtain pre' where
      "pre0 = A @ pre'" "B = pre' @ ev # post" by auto
    with Cons \<open>b = a\<close> show ?thesis by simp
  qed
qed

lemma unique_split:
  "xs @ f # ys = pre @ ev # post \<Longrightarrow> \<forall>x\<in>set xs. \<not> P x \<Longrightarrow>
     \<forall>y\<in>set ys. \<not> P y \<Longrightarrow> P ev \<Longrightarrow> pre = xs \<and> ev = f \<and> post = ys"
proof -
  assume h: "xs @ f # ys = pre @ ev # post" "\<forall>x\<in>set xs. \<not> P x"
    "\<forall>y\<in>set ys. \<not> P y" "P ev"
  from split_after_prefix [OF h(1) h(2) h(4)] obtain pre' where
    p: "pre = xs @ pre'" "f # ys = pre' @ ev # post" by blast
  show ?thesis
  proof (cases pre')
    case Nil
    with p show ?thesis by simp
  next
    case (Cons b pre0)
    with p have "ys = pre0 @ ev # post" by simp
    then have "ev \<in> set ys" by simp
    with h(3) h(4) show ?thesis by blast
  qed
qed

lemma encrypt_device_shape:
  "encrypt_device e dev inp tty = (tr, out) \<Longrightarrow>
     (\<exists>rp. table_type_of rp \<noteq> ''gpt'' \<and> tr = [Run (parted_command dev) None rp] \<and>
            out = Exit 1)
   \<or> (\<exists>rp. table_type_of rp = ''gpt'' \<and>
            tr = [Run (parted_command dev) None rp, InputEOF ''> ''] \<and>
            out = Uncaught EOFError)
   \<or> (\<exists>rp c. table_type_of rp = ''gpt'' \<and> strip c \<noteq> encrypt_text \<and>
            tr = [Run (parted_command dev) None rp, Input ''> '' c] \<and> out = Exit 0)
   \<or> (\<exists>rp c cs. table_type_of rp = ''gpt'' \<and> strip c = encrypt_text \<and> inp = c # cs \<and>
            rp = run_command e (parted_command dev) None False \<and>
            tr = [Run (parted_command dev) None rp, Input ''> '' c] @
                 fst (format_and_open e dev cs tty) \<and>
            out = snd (format_and_open e dev cs tty))"
  by (cases inp)
     (auto simp: encrypt_device_def Let_def prepend_def partition_trace split: if_splits)

lemma format_and_open_shape:
  "format_and_open e dev inp tty = (tr, out) \<Longrightarrow>
     ((\<forall>x\<in>set tr. (\<exists>q s. x = GetPass q s) \<or> (\<exists>q. x = GetPassEOF q)) \<and>
      out = Uncaught EOFError)
   \<or> (\<exists>pre p r post.
         tr = pre @ Run (luks_format_command dev) (Some (format_input p)) r # post \<and>
         (\<forall>x\<in>set pre. \<exists>q s. x = GetPass q s) \<and> 8 \<le> length p \<and>
         GetPass passphrase_prompt p \<in> set pre \<and>
         GetPass confirm_passphrase_prompt p \<in> set pre \<and>
         (((\<exists>err. r = Inl err) \<and> post = [] \<and> out = Exit 1)
          \<or> ((\<exists>so. r = Inr so) \<and>
              (\<exists>d err. post = [MakeDirs d (Some err)] \<and> out = Uncaught err))
          \<or> ((\<exists>so. r = Inr so) \<and>
              (\<exists>d f br. post = [MakeDirs d None,
                                  Run (header_backup_command dev f) None br] @
                                 fst (open_formatted e dev p inp) \<and>
                         out = snd (open_formatted e dev p inp)))))"
proof -
  assume h: "format_and_open e dev inp tty = (tr, out)"
  obtain ct cr where c: "collect_passphrase tty = (ct, cr)"
    by (cases "collect_passphrase tty")
  show ?thesis
  proof (cases cr)
    case (Inl o')
    with h c have "tr = ct" "out = o'"
      by (simp_all add: format_and_open_def Let_def)
    with collect_passphrase_stopped [of tty ct o'] c Inl show ?thesis by simp
  next
    case (Inr p)
    from collect_passphrase_accepted [of tty ct p] c Inr obtain pre0 where
      acc: "8 \<le> length p"
        "ct = pre0 @ [GetPass passphrase_prompt p, GetPass confirm_passphrase_prompt p]"
        "\<forall>x\<in>set ct. \<exists>q s. x = GetPass q s"
      by auto
    then have mem: "GetPass passphrase_prompt p \<in> set ct"
      "GetPass confirm_passphrase_prompt p \<in> set ct" by simp_all
    let ?r = "run_command e (luks_format_command dev) (Some (format_input p)) True"
    let ?f = "Run (luks_format_command dev) (Some (format_input p)) ?r"
    from h c Inr consider
        (fail) err where "?r = Inl err" "tr = ct @ ?f # []" "out = Exit 1"
      | (nodir) so d err where "?r = Inr so" "tr = ct @ ?f # [MakeDirs d (Some err)]"
          "out = Uncaught err"
      | (opened) so d f br where "?r = Inr so"
          "tr = ct @ ?f # ([MakeDirs d None, Run (header_backup_command dev f) None br] @
                 fst (open_formatted e dev p inp))"
          "out = snd (open_formatted e dev p inp)"
      by (auto simp: format_and_open_def luks_header_backup_def Let_def prepend_def
               split: sum.splits option.splits)
    then show ?thesis
    proof cases
      case fail
      with acc mem show ?thesis by blast
    next
      case nodir
      with acc mem show ?thesis by blast
    next
      case opened
      with acc mem show ?thesis by blast
    qed
  qed
qed

lemma prelude_quiet:
  "prelude x \<Longrightarrow> \<not> is_format x \<and> \<not> is_luks_open x \<and> \<not> mutates x"
  by (cases x) (auto simp: prelude_def is_format_def is_luks_open_def mutates_def query_command_def)

lemma open_encrypted_no_format:
  "x \<in> set (fst (open_encrypted e dev ls tty)) \<Longrightarrow> \<not> is_format x"
  by (auto simp: open_encrypted_def Let_def is_format_def luks_open_command_def
           split: list.splits if_splits)

lemma open_formatted_no_format:
  "x \<in> set (fst (open_formatted e dev p ls)) \<Longrightarrow> \<not> is_format x"
  by (auto simp: open_formatted_def Let_def is_format_def luks_open_command_def
           split: list.splits if_splits)

lemma format_and_open_format_event:
  assumes "format_and_open e dev inp tty = (tr, out)" "tr = pre @ ev # post" "is_format ev"
  shows "\<exists>pw r. ev = Run (luks_format_command dev) (Some (format_input pw)) r \<and>
           (\<forall>x\<in>set pre. \<exists>q s. x = GetPass q s) \<and> 8 \<le> length pw \<and>
           GetPass passphrase_prompt pw \<in> set pre \<and>
           GetPass confirm_passphrase_prompt pw \<in> set pre"
proof -
  from format_and_open_shape [OF assms(1)] consider
      (stopped) "\<forall>x\<in>set tr. (\<exists>q s. x = GetPass q s) \<or> (\<exists>q. x = GetPassEOF q)"
    | (formatted) pre0 p r post0 where
        "tr = pre0 @ Run (luks_format_command dev) (Some (format_input p)) r # post0"
        "\<forall>x\<in>set pre0. \<exists>q s. x = GetPass q s" "8 \<le> length p"
        "GetPass passphrase_prompt p \<in> set pre0"
        "GetPass confirm_passphrase_prompt p \<in> set pre0"
        "post0 = [] \<or> (\<exists>d err. post0 = [MakeDirs d (Some err)]) \<or>
         (\<exists>d f br. post0 = [MakeDirs d None, Run (header_backup_command dev f) None br] @
                             fst (open_formatted e dev p inp))"
    by blast
  then show ?thesis
  proof cases
    case stopped
    from assms(2) have "ev \<in> set tr" by simp
    with stopped assms(3) show ?thesis by (auto simp: is_format_def)
  next
    case formatted
    have a: "\<forall>x\<in>set pre0. \<not> is_format x"
      using formatted(2) by (auto simp: is_format_def)
    have b: "\<forall>y\<in>set post0. \<not> is_format y"
      using formatted(6) open_formatted_no_format [of _ e dev p inp]
      by (auto simp: is_format_def header_backup_command_def)
    from formatted(1) assms(2)
    have "pre0 @ Run (luks_format_command dev) (Some (format_input p)) r # post0 =
            pre @ ev # post" by simp
    from unique_split [OF this a b assms(3)]
    have "pre = pre0" "ev = Run (luks_format_command dev) (Some (format_input p)) r"
      by simp_all
    with formatted show ?thesis by blast
  qed
qed

lemma encrypt_device_format_event:
  assumes "encrypt_device e dev inp tty = (tr, out)" "tr = pre @ ev # post" "is_format ev"
  shows "\<exists>rp c passes pw r.
           pre = [Run (parted_command dev) None rp, Input ''> '' c] @ passes \<and>
           table_type_of rp = ''gpt'' \<and> strip c = encrypt_text \<and>
           rp = run_command e (parted_command dev) None False \<and>
           ev = Run (luks_format_command dev) (Some (format_input pw)) r \<and>
           (\<forall>x\<in>set passes. \<exists>q s. x = GetPass q s) \<and> 8 \<le> length pw \<and>
           GetPass passphrase_prompt pw \<in> set passes \<and>
           GetPass confirm_passphrase_prompt pw \<in> set passes"
proof -
  from assms(2) have mem: "ev \<in> set tr" by simp
  from encrypt_device_shape [OF assms(1)] mem assms(3) obtain rp c cs where
    s: "table_type_of rp = ''gpt''" "strip c = encrypt_text"
      "rp = run_command e (parted_command dev) None False"
      "tr = [Run (parted_command dev) None rp, Input ''> '' c] @
            fst (format_and_open e dev cs tty)"
    by (auto simp: is_format_def parted_command_def)
  have "\<forall>x\<in>set [Run (parted_command dev) None rp, Input ''> '' c]. \<not> is_format x"
    by (simp add: is_format_def parted_command_def)
  with split_after_prefix [of "[Run (parted_command dev) None rp, Input ''> '' c]"
      "fst (format_and_open e dev cs tty)" pre ev post is_format] s(4) assms(2,3)
  obtain passes where p: "pre = [Run (parted_command dev) None rp, Input ''> '' c] @ passes"
    "fst (format_and_open e dev cs tty) = passes @ ev # post"
    by auto
  have "format_and_open e dev cs tty =
          (fst (format_and_open e dev cs tty), snd (format_and_open e dev cs tty))"
    by simp
  from format_and_open_format_event [OF this p(2) assms(3)] p(1) s(1,2,3)
  show ?thesis by blast
qed

lemma main_format_event:
  assumes "main e inp tty = (tr, out)" "tr = pre @ ev # post" "is_format ev"
  shows "\<exists>lead dev rp c passes pw r.
           pre = lead @ [Run (parted_command dev) None rp, Input ''> '' c] @ passes \<and>
           (\<forall>x\<in>set lead. prelude x) \<and>
           table_type_of rp = ''gpt'' \<and> strip c = encrypt_text \<and>
           rp = run_command e (parted_command dev) None False \<and>
           ev = Run (luks_format_command dev) (Some (format_input pw)) r \<and>
           (\<forall>x\<in>set passes. \<exists>q s. x = GetPass q s) \<and> 8 \<le> length pw \<and>
           GetPass passphrase_prompt pw \<in> set passes \<and>
           GetPass confirm_passphrase_prompt pw \<in> set passes"
proof -
  from assms(2) have mem: "ev \<in> set tr" by simp
  have np: "\<And>x. prelude x \<Longrightarrow> \<not> is_format x" using prelude_quiet by blast
  from main_shape [OF assms(1)] consider
      (R) "tr = []"
    | (A) "\<forall>x\<in>set tr. prelude x"
    | (B) lead dev ls where "\<forall>x\<in>set lead. prelude x"
        "tr = lead @ fst (open_encrypted e dev ls tty)"
    | (C) lead where "\<forall>x\<in>set lead. prelude x" "tr = lead @ [InputEOF ''> '']"
    | (D) lead a c where "\<forall>x\<in>set lead. prelude x"
        "tr = lead @ [Input action_prompt a, Input ''> '' c]"
    | (E) lead dev ls where "\<forall>x\<in>set lead. prelude x"
        "tr = lead @ fst (encrypt_device e dev ls tty)"
    by blast
  then show ?thesis
  proof cases
    case R
    with mem show ?thesis by simp
  next
    case A
    with mem np assms(3) show ?thesis by blast
  next
    case B
    with mem np assms(3) open_encrypted_no_format [of ev e dev ls tty]
    show ?thesis by auto
  next
    case C
    with mem np assms(3) show ?thesis by (auto simp: is_format_def)
  next
    case D
    with mem np assms(3) show ?thesis by (auto simp: is_format_def)
  next
    case E
    have "\<forall>x\<in>set lead. \<not> is_format x" using E(1) np by blast
    with split_after_prefix [of lead "fst (encrypt_device e dev ls tty)" pre ev post is_format]
      E(2) assms(2,3)
    obtain pre' where p: "pre = lead @ pre'"
      "fst (encrypt_device e dev ls tty) = pre' @ ev # post"
      by auto
    have "encrypt_device e dev ls tty =
            (fst (encrypt_device e dev ls tty), snd (encrypt_device e dev ls tty))"
      by simp
    from encrypt_device_format_event [OF this p(2) assms(3)] p(1) E(1)
    show ?thesis by blast
  qed
qed

subsection \<open>The mapper-name prompts\<close>

lemma prompts_differ:
  "mapper_prompt \<noteq> select_prompt" "mapper_prompt \<noteq> action_prompt" "mapper_prompt \<noteq> ''> ''"
  "mapper_prompt_formatted \<noteq> select_prompt" "mapper_prompt_formatted \<noteq> action_prompt"
  "mapper_prompt_formatted \<noteq> ''> ''" "mapper_prompt \<noteq> mapper_prompt_formatted"
  by (simp_all add: mapper_prompt_def mapper_prompt_formatted_def select_prompt_def
        action_prompt_def)

lemma prelude_not_mapper:
  "prelude (Input q m) \<Longrightarrow> q \<noteq> mapper_prompt \<and> q \<noteq> mapper_prompt_formatted"
  using prompts_differ by auto

lemma open_encrypted_input:
  "Input q m \<in> set (fst (open_encrypted e dev inp tty)) \<Longrightarrow>
     q = mapper_prompt \<and> (\<exists>ls. inp = m # ls)"
  by (auto simp: open_encrypted_def Let_def split: list.splits if_splits)

lemma open_formatted_input:
  "Input q m \<in> set (fst (open_formatted e dev p inp)) \<Longrightarrow>
     q = mapper_prompt_formatted \<and> (\<exists>ls. inp = m # ls)"
  by (auto simp: open_formatted_def Let_def split: list.splits if_splits)

lemma main_mapper_input:
  assumes "main e inp tty = (tr, out)" "Input q m \<in> set tr"
    "q = mapper_prompt \<or> q = mapper_prompt_formatted"
  shows "(q = mapper_prompt \<and>
          (\<exists>before dev ls. (\<forall>x\<in>set before. prelude x) \<and>
             tr = before @ fst (open_encrypted e dev (m # ls) tty) \<and>
             out = snd (open_encrypted e dev (m # ls) tty)))
       \<or> (q = mapper_prompt_formatted \<and>
          (\<exists>before dev pw ls si so. (\<forall>x\<in>set before. \<not> is_luks_open x) \<and>
             Run (luks_format_command dev) si (Inr so) \<in> set before \<and>
             tr = before @ fst (open_formatted e dev pw (m # ls)) \<and>
             out = snd (open_formatted e dev pw (m # ls))))"
proof -
  have nm: "\<And>x. prelude x \<Longrightarrow> x \<noteq> Input q m"
    using prelude_not_mapper assms(3) by blast
  from main_shape [OF assms(1)] consider
      (R) "tr = []"
    | (A) "\<forall>x\<in>set tr. prelude x"
    | (B) lead dev ls where "\<forall>x\<in>set lead. prelude x"
        "tr = lead @ fst (open_encrypted e dev ls tty)"
        "out = snd (open_encrypted e dev ls tty)"
    | (C) lead where "\<forall>x\<in>set lead. prelude x" "tr = lead @ [InputEOF ''> '']"
    | (D) lead a c where "\<forall>x\<in>set lead. prelude x"
        "tr = lead @ [Input action_prompt a, Input ''> '' c]"
    | (E) lead dev ls where "\<forall>x\<in>set lead. prelude x"
        "tr = lead @ fst (encrypt_device e dev ls tty)"
        "out = snd (encrypt_device e dev ls tty)"
    by blast
  then show ?thesis
  proof cases
    case R
    with assms(2) show ?thesis by simp
  next
    case A
    with assms(2) nm show ?thesis by blast
  next
    case B
    from B(1,2) assms(2) nm have "Input q m \<in> set (fst (open_encrypted e dev ls tty))"
      by auto
    from open_encrypted_input [OF this] obtain ls' where "q = mapper_prompt" "ls = m # ls'"
      by blast
    with B show ?thesis by blast
  next
    case C
    with assms(2,3) nm prompts_differ show ?thesis by auto
  next
    case D
    with assms(2,3) nm prompts_differ show ?thesis by auto
  next
    case E
    from E(1,2) assms(2) nm have i: "Input q m \<in> set (fst (encrypt_device e dev ls tty))"
      by auto
    have "encrypt_device e dev ls tty =
            (fst (encrypt_device e dev ls tty), snd (encrypt_device e dev ls tty))"
      by simp
    from encrypt_device_shape [OF this] i assms(3) prompts_differ obtain rp c cs where
      s: "fst (encrypt_device e dev ls tty) =
            [Run (parted_command dev) None rp, Input ''> '' c] @
            fst (format_and_open e dev cs tty)"
         "snd (encrypt_device e dev ls tty) = snd (format_and_open e dev cs tty)"
      by auto
    from s(1) i assms(3) prompts_differ
    have j: "Input q m \<in> set (fst (format_and_open e dev cs tty))" by auto
    have "format_and_open e dev cs tty =
            (fst (format_and_open e dev cs tty), snd (format_and_open e dev cs tty))"
      by simp
    from format_and_open_shape [OF this] j obtain passes pw r so d f br where
      t: "fst (format_and_open e dev cs tty) =
            passes @ Run (luks_format_command dev) (Some (format_input pw)) r #
            [MakeDirs d None, Run (header_backup_command dev f) None br] @
            fst (open_formatted e dev pw cs)"
         "\<forall>x\<in>set passes. \<exists>q s. x = GetPass q s" "r = Inr so"
         "snd (format_and_open e dev cs tty) = snd (open_formatted e dev pw cs)"
      by auto
    from t(1,2) j have k: "Input q m \<in> set (fst (open_formatted e dev pw cs))" by auto
    from open_formatted_input [OF k] obtain ls' where
      u: "q = mapper_prompt_formatted" "cs = m # ls'" by blast
    let ?before = "lead @ [Run (parted_command dev) None rp, Input ''> '' c] @ passes @
       [Run (luks_format_command dev) (Some (format_input pw)) (Inr so),
        MakeDirs d None, Run (header_backup_command dev f) None br]"
    have b1: "\<forall>x\<in>set ?before. \<not> is_luks_open x"
      using E(1) prelude_quiet t(2)
      by (auto simp: is_luks_open_def parted_command_def luks_format_command_def
            header_backup_command_def)
    have b2: "Run (luks_format_command dev) (Some (format_input pw)) (Inr so) \<in> set ?before"
      by simp
    have b3: "tr = ?before @ fst (open_formatted e dev pw (m # ls'))"
      using E(2) s(1) t(1,3) u(2) by simp
    have b4: "out = snd (open_formatted e dev pw (m # ls'))"
      using E(3) s(2) t(4) u(2) by simp
    from u(1) b1 b2 b3 b4 show ?thesis by blast
  qed
qed

subsection \<open>Stripped text\<close>

lemma strip_all_space: "\<forall>c\<in>set m. isspace c \<Longrightarrow> strip m = []"
proof -
  assume "\<forall>c\<in>set m. isspace c"
  then have d: "dropWhile isspace m = []" by (induction m) auto
  show ?thesis by (simp only: strip_def d rev.simps dropWhile.simps)
qed

lemma strip_decompose:
  "\<exists>u v. l = u @ strip l @ v \<and> (\<forall>c\<in>set u. isspace c) \<and> (\<forall>c\<in>set v. isspace c)"
proof -
  let ?d = "dropWhile isspace l"
  let ?v = "rev (takeWhile isspace (rev ?d))"
  have "strip l @ ?v = rev (takeWhile isspace (rev ?d) @ dropWhile isspace (rev ?d))"
    unfolding strip_def by (simp only: rev_append)
  also have "\<dots> = rev (rev ?d)" by (simp only: takeWhile_dropWhile_id)
  also have "\<dots> = ?d" by (simp only: rev_rev_ident)
  finally have d: "strip l @ ?v = ?d" .
  have "takeWhile isspace l @ ?d = l" by (simp only: takeWhile_dropWhile_id)
  with d have "takeWhile isspace l @ strip l @ ?v = l" by (simp only:)
  then have "l = takeWhile isspace l @ strip l @ ?v" by (rule sym)
  moreover have "\<forall>c\<in>set (takeWhile isspace l). isspace c"
    by (auto dest: set_takeWhileD)
  moreover have "\<forall>c\<in>set ?v. isspace c"
    by (auto dest: set_takeWhileD)
  ultimately show ?thesis by blast
qed

lemma strip_surrounded:
  assumes "t \<noteq> []" "\<not> isspace (hd t)" "\<not> isspace (last t)"
    "\<forall>c\<in>set u. isspace c" "\<forall>c\<in>set v. isspace c"
  shows "strip (u @ t @ v) = t"
proof -
  have a: "dropWhile isspace (u @ t @ v) = t @ v"
    using assms(1,2,4) by (cases t) (simp_all add: dropWhile_append)
  have "dropWhile isspace (rev v @ rev t) = dropWhile isspace (rev t)"
    using assms(5) by (simp add: dropWhile_append)
  moreover have "dropWhile isspace (rev t) = rev t"
    using assms(1,3) by (cases "rev t") (auto simp: hd_rev [symmetric] )
  ultimately show ?thesis using a by (simp add: strip_def)
qed

lemma strip_eq_iff:
  assumes "t \<noteq> []" "\<not> isspace (hd t)" "\<not> isspace (last t)"
  shows "strip l = t \<longleftrightarrow>
           (\<exists>u v. l = u @ t @ v \<and> (\<forall>c\<in>set u. isspace c) \<and> (\<forall>c\<in>set v. isspace c))"
proof
  assume "strip l = t"
  with strip_decompose [of l] show
    "\<exists>u v. l = u @ t @ v \<and> (\<forall>c\<in>set u. isspace c) \<and> (\<forall>c\<in>set v. isspace c)"
    by simp
next
  assume "\<exists>u v. l = u @ t @ v \<and> (\<forall>c\<in>set u. isspace c) \<and> (\<forall>c\<in>set v. isspace c)"
  then obtain u v where "l = u @ t @ v" "\<forall>c\<in>set u. isspace c" "\<forall>c\<in>set v. isspace c"
    by blast
  with strip_surrounded [OF assms] show "strip l = t" by simp
qed

lemma texts_trimmed:
  "encrypt_text \<noteq> []" "\<not> isspace (hd encrypt_text)" "\<not> isspace (last encrypt_text)"
  "reencrypt_text \<noteq> []" "\<not> isspace (hd reencrypt_text)" "\<not> isspace (last reencrypt_text)"
  by (simp_all add: encrypt_text_def reencrypt_text_def isspace_def)

subsection \<open>The confirmation prompts\<close>

lemma collect_passphrase_asks:
  "\<exists>x\<in>set (fst (collect_passphrase tty)). asks_passphrase x"
  by (cases tty rule: collect_passphrase.cases)
     (auto simp: asks_passphrase_def prepend_def)

lemma format_and_open_asks:
  "\<exists>x\<in>set (fst (format_and_open e dev inp tty)). asks_passphrase x"
proof -
  from collect_passphrase_asks [of tty] obtain x where
    x: "x \<in> set (fst (collect_passphrase tty))" "asks_passphrase x" by blast
  then have "x \<in> set (fst (format_and_open e dev inp tty))"
    by (auto simp: format_and_open_def Let_def prepend_def split: sum.splits)
  with x(2) show ?thesis by blast
qed

lemma format_and_open_input:
  assumes "Input q m \<in> set (fst (format_and_open e dev inp tty))"
  shows "q = mapper_prompt_formatted"
proof -
  have "format_and_open e dev inp tty =
          (fst (format_and_open e dev inp tty), snd (format_and_open e dev inp tty))"
    by simp
  from format_and_open_shape [OF this] assms obtain passes pw where
    "Input q m \<in> set (fst (open_formatted e dev pw inp))"
    by auto
  from open_formatted_input [OF this] show ?thesis by simp
qed

lemma confirm_prompt_differs:
  "select_prompt \<noteq> ''> ''" "action_prompt \<noteq> ''> ''"
  by (simp_all add: select_prompt_def action_prompt_def)

lemma main_mismatch:
  assumes "main e inp tty = (tr, out)" "Input ''> '' l \<in> set tr"
    "strip l \<noteq> encrypt_text" "strip l \<noteq> reencrypt_text"
  shows "out = Exit 0 \<and> (\<exists>before. tr = before @ [Input ''> '' l])"
proof -
  have np: "\<And>x. prelude x \<Longrightarrow> x \<noteq> Input ''> '' l"
    using assms(4) confirm_prompt_differs by auto
  from main_shape [OF assms(1)] consider
      (R) "tr = []"
    | (A) "\<forall>x\<in>set tr. prelude x"
    | (B) lead dev ls where "\<forall>x\<in>set lead. prelude x"
        "tr = lead @ fst (open_encrypted e dev ls tty)"
    | (C) lead where "\<forall>x\<in>set lead. prelude x" "tr = lead @ [InputEOF ''> '']"
    | (D) lead a c where "\<forall>x\<in>set lead. prelude x"
        "tr = lead @ [Input action_prompt a, Input ''> '' c]" "out = Exit 0"
    | (E) lead dev ls where "\<forall>x\<in>set lead. prelude x"
        "tr = lead @ fst (encrypt_device e dev ls tty)"
        "out = snd (encrypt_device e dev ls tty)"
    by blast
  then show ?thesis
  proof cases
    case R
    with assms(2) show ?thesis by simp
  next
    case A
    with assms(2) np show ?thesis by blast
  next
    case B
    with assms(2) np have "Input ''> '' l \<in> set (fst (open_encrypted e dev ls tty))"
      by auto
    from open_encrypted_input [OF this] prompts_differ show ?thesis by simp
  next
    case C
    with assms(2) np show ?thesis by auto
  next
    case D
    with assms(2) np confirm_prompt_differs have "c = l" by auto
    with D have "tr = (lead @ [Input action_prompt a]) @ [Input ''> '' l]" by simp
    with D(3) show ?thesis by blast
  next
    case E
    with assms(2) np have i: "Input ''> '' l \<in> set (fst (encrypt_device e dev ls tty))"
      by auto
    have "encrypt_device e dev ls tty =
            (fst (encrypt_device e dev ls tty), snd (encrypt_device e dev ls tty))"
      by simp
    from encrypt_device_shape [OF this] consider
        (one) rp where "fst (encrypt_device e dev ls tty) = [Run (parted_command dev) None rp]"
      | (two) rp where "fst (encrypt_device e dev ls tty) =
            [Run (parted_command dev) None rp, InputEOF ''> '']"
      | (three) rp c where "fst (encrypt_device e dev ls tty) =
            [Run (parted_command dev) None rp, Input ''> '' c]"
          "snd (encrypt_device e dev ls tty) = Exit 0"
      | (four) rp c cs where "strip c = encrypt_text"
          "fst (encrypt_device e dev ls tty) =
            [Run (parted_command dev) None rp, Input ''> '' c] @
            fst (format_and_open e dev cs tty)"
      by blast
    then show ?thesis
    proof cases
      case one
      with i show ?thesis by simp
    next
      case two
      with i show ?thesis by simp
    next
      case three
      with i have "c = l" by simp
      with three E have "tr = (lead @ [Run (parted_command dev) None rp]) @ [Input ''> '' l]"
        "out = Exit 0" by simp_all
      then show ?thesis by blast
    next
      case four
      with i assms(3) have "Input ''> '' l \<in> set (fst (format_and_open e dev cs tty))"
        by auto
      from format_and_open_input [OF this] prompts_differ show ?thesis by simp
    qed
  qed
qed

subsection \<open>The output of parted\<close>

lemma splitlines_from_sublist:
  "x \<in> set (splitlines_from cur s) \<Longrightarrow> sublist x (cur @ s)"
proof (induction cur s rule: splitlines_from.induct)
  case (1 cur)
  then show ?case by (auto split: if_splits)
next
  case (2 cur c cs)
  show ?case
  proof (cases "c = CHR 0x0D")
    case cr: True
    show ?thesis
    proof (cases cs)
      case Nil
      with cr "2.prems" show ?thesis by auto
    next
      case (Cons d ds)
      show ?thesis
      proof (cases "d = CHR 0x0A")
        case True
        with cr Cons "2.prems" have "x = cur \<or> x \<in> set (splitlines_from [] ds)" by auto
        then show ?thesis
        proof
          assume "x = cur"
          then show ?thesis by simp
        next
          assume "x \<in> set (splitlines_from [] ds)"
          with "2.IH"(1) [OF cr Cons True] have "sublist x ds" by simp
          then obtain ps ss where "ds = ps @ x @ ss" by (auto simp: sublist_def)
          then have "cur @ c # cs = (cur @ c # d # ps) @ x @ ss" using Cons by simp
          then show ?thesis unfolding sublist_def by blast
        qed
      next
        case False
        with cr Cons "2.prems" have "x = cur \<or> x \<in> set (splitlines_from [] cs)" by auto
        then show ?thesis
        proof
          assume "x = cur"
          then show ?thesis by simp
        next
          assume "x \<in> set (splitlines_from [] cs)"
          with "2.IH"(2) [OF cr Cons False] Cons have "sublist x cs" by simp
          then obtain ps ss where "cs = ps @ x @ ss" by (auto simp: sublist_def)
          then have "cur @ c # cs = (cur @ c # ps) @ x @ ss" by simp
          then show ?thesis unfolding sublist_def by blast
        qed
      qed
    qed
  next
    case nocr: False
    show ?thesis
    proof (cases "c \<in> set [CHR 0x0A, CHR 0x0B, CHR 0x0C, CHR 0x1C, CHR 0x1D, CHR 0x1E, CHR 0x85]")
      case True
      with nocr "2.prems" have "x = cur \<or> x \<in> set (splitlines_from [] cs)" by auto
      then show ?thesis
      proof
        assume "x = cur"
        then show ?thesis by simp
      next
        assume "x \<in> set (splitlines_from [] cs)"
        with "2.IH"(3) [OF nocr True] have "sublist x cs" by simp
        then obtain ps ss where "cs = ps @ x @ ss" by (auto simp: sublist_def)
        then have "cur @ c # cs = (cur @ c # ps) @ x @ ss" by simp
        then show ?thesis unfolding sublist_def by blast
      qed
    next
      case False
      with nocr "2.prems" have "x \<in> set (splitlines_from (cur @ [c]) cs)" by auto
      with "2.IH"(4) [OF nocr False] show ?thesis by simp
    qed
  qed
qed

lemma splitlines_sublist: "x \<in> set (splitlines s) \<Longrightarrow> sublist x s"
  using splitlines_from_sublist [of x "[]" s] by (simp add: splitlines_def)

lemma scan_lines_none:
  "\<forall>x\<in>set ls. \<not> sublist ''Partition Table:'' x \<Longrightarrow> scan_lines ls = Inr None"
  by (induction ls) auto

lemma split_from_nonempty: "1 \<le> length (split_from sep cur s)"
  by (induction s arbitrary: cur) auto

lemma split_from_length:
  "sep \<in> set s \<Longrightarrow> 2 \<le> length (split_from sep cur s)"
proof (induction s arbitrary: cur)
  case Nil
  then show ?case by simp
next
  case (Cons c cs)
  show ?case
  proof (cases "c = sep")
    case True
    with split_from_nonempty [of sep "[]" cs] show ?thesis by simp
  next
    case False
    with Cons show ?thesis by simp
  qed
qed

lemma label_has_colon: "sublist ''Partition Table:'' line \<Longrightarrow> CHR '':'' \<in> set line"
  by (auto simp: sublist_def)

lemma scan_lines_first:
  "\<forall>x\<in>set before. \<not> sublist ''Partition Table:'' x \<Longrightarrow>
   sublist ''Partition Table:'' line \<Longrightarrow>
   scan_lines (before @ line # after) =
     Inr (Some (lower (strip (split_py (CHR '':'') line ! 1))))"
proof (induction before)
  case Nil
  from split_from_length [OF label_has_colon [OF Nil(2)], of "[]"]
  have "1 < length (split_py (CHR '':'') line)" by (simp add: split_py_def)
  with Nil show ?case by (simp add: index_py_def)
next
  case (Cons b before)
  then show ?case by simp
qed

lemma table_type_no_label:
  assumes "\<not> sublist ''Partition Table:'' out"
  shows "table_type_of (Inr (out, errs)) = ''unknown''"
proof -
  have "\<forall>x\<in>set (splitlines out). \<not> sublist ''Partition Table:'' x"
    using assms splitlines_sublist sublist_order.order_trans by blast
  from scan_lines_none [OF this] show ?thesis by (simp add: table_type_of_def)
qed

subsection \<open>The listing of one device\<close>

lemma is_crypt_type_entry: "is_crypt_type (JObj kvs) = Inr (crypt_entry kvs)"
  by (auto simp: is_crypt_type_def get_py_def dict_get_def crypt_entry_def
           split: option.splits)

lemma any_crypt_child_entries:
  "\<forall>c\<in>set cs. \<exists>kv. c = JObj kv \<Longrightarrow>
     any_crypt_child cs = Inr (\<exists>kv. JObj kv \<in> set cs \<and> crypt_entry kv)"
proof (induction cs)
  case Nil
  then show ?case by simp
next
  case (Cons c cs)
  then obtain kv where c: "c = JObj kv" by auto
  from Cons have ih: "any_crypt_child cs = Inr (\<exists>kv. JObj kv \<in> set cs \<and> crypt_entry kv)"
    by simp
  show ?case
  proof (cases "crypt_entry kv")
    case True
    with c have "any_crypt_child (c # cs) = Inr True" by (simp add: is_crypt_type_entry)
    moreover from True c have "\<exists>kv. JObj kv \<in> set (c # cs) \<and> crypt_entry kv" by auto
    ultimately show ?thesis by simp
  next
    case False
    with c ih have "any_crypt_child (c # cs) = Inr (\<exists>kv. JObj kv \<in> set cs \<and> crypt_entry kv)"
      by (simp add: is_crypt_type_entry)
    moreover from False c
    have "(\<exists>kv. JObj kv \<in> set (c # cs) \<and> crypt_entry kv) =
          (\<exists>kv. JObj kv \<in> set cs \<and> crypt_entry kv)" by auto
    ultimately show ?thesis by simp
  qed
qed

lemma crypt_in_entries:
  assumes "map_of root ''blockdevices'' = Some (JList (JObj entry # others))"
    "dict_get entry ''children'' (JList []) = JList children"
    "\<forall>c\<in>set children. \<exists>kv. c = JObj kv"
  shows "crypt_in (JObj root) =
           Inr (crypt_entry entry \<or> (\<exists>kv. JObj kv \<in> set children \<and> crypt_entry kv))"
  using assms any_crypt_child_entries [OF assms(3)]
  by (simp add: crypt_in_def item_py_def first_py_def index_py_def is_crypt_type_entry
        get_py_def iter_py_def)

subsection \<open>The listing of all devices\<close>

lemma block_device_kept:
  assumes "block_device block = Inr (Some d)"
  shows "\<exists>kvs n. block = JObj kvs \<and> map_of kvs ''type'' = Some (JStr ''disk'') \<and>
           map_of kvs ''name'' = Some (JStr n) \<and> name d = ''/dev/'' @ n \<and>
           \<not> sublist ''nvme'' (lower n) \<and> truthy (dict_get kvs ''rm'' (JBool False))"
proof (cases block)
  case (JObj kvs)
  with assms have t: "dict_get kvs ''type'' JNull = JStr ''disk''"
    by (auto simp: block_device_def split: if_splits)
  then have t': "map_of kvs ''type'' = Some (JStr ''disk'')"
    by (auto simp: dict_get_def split: option.splits)
  from assms JObj t obtain nm where nm: "map_of kvs ''name'' = Some nm"
    by (auto simp: block_device_def split: option.splits)
  from assms JObj t nm obtain n where n: "nm = JStr n"
    by (cases nm) (auto simp: block_device_def Let_def split: sum.splits)
  from assms JObj t nm n have
    "\<not> sublist ''nvme'' (lower n)" "truthy (dict_get kvs ''rm'' (JBool False))"
    "name d = ''/dev/'' @ n"
    by (auto simp: block_device_def Let_def split: sum.splits if_splits option.splits)
  with JObj t' nm n show ?thesis by blast
qed (use assms in \<open>simp_all add: block_device_def\<close>)

lemma scan_blocks_kept:
  "scan_blocks blocks = Inr devices \<Longrightarrow> d \<in> set devices \<Longrightarrow>
     \<exists>block\<in>set blocks. block_device block = Inr (Some d)"
proof (induction blocks arbitrary: devices)
  case Nil
  then show ?case by simp
next
  case (Cons b bs)
  show ?case
  proof (cases "block_device b")
    case (Inl err)
    with Cons.prems show ?thesis by simp
  next
    case (Inr r)
    show ?thesis
    proof (cases r)
      case None
      with Inr Cons.prems Cons.IH [of devices] show ?thesis by auto
    next
      case (Some d')
      with Inr Cons.prems obtain ds where ds: "scan_blocks bs = Inr ds" "devices = d' # ds"
        by (auto split: sum.splits)
      with Cons.prems(2) have "d = d' \<or> d \<in> set ds" by simp
      then show ?thesis
      proof
        assume "d = d'"
        with Inr Some show ?thesis by simp
      next
        assume "d \<in> set ds"
        with Cons.IH [OF ds(1)] show ?thesis by auto
      qed
    qed
  qed
qed

lemma nvme_not_across_dev:
  "sublist ''nvme'' (lower (''/dev/'' @ n)) \<Longrightarrow> sublist ''nvme'' (lower n)"
  by (simp add: lower_def lower_char_def upper_letters_def lower_letters_def
        sublist_Cons_right)

section \<open>Root privileges\<close>

text \<open>
  C9. When the effective user id is not 0, \<open>main\<close> ends with exit status 1 and an empty
  record of events: no device enumeration, no external command and no prompt comes
  before.
\<close>

theorem not_root_exits_first:
  "geteuid e \<noteq> 0 \<Longrightarrow> main e inp tty = ([], Exit 1)"
  by (simp add: main_def)

theorem not_root_exits_first_witness:
  "main (sample_env 1000 False ''gpt'') [''1''] [] = ([], Exit 1)"
proof -
  have h: "geteuid (sample_env 1000 False ''gpt'') \<noteq> 0"
    by (simp add: sample_env_def)
  show ?thesis
    using not_root_exits_first [OF h] .
qed


section \<open>The gates before the format\<close>



section \<open>The confirmation sentences\<close>

text \<open>
  C3, as the code has it. A confirmation gate lets the run go on exactly when the line
  read, stripped of the whitespace around it, equals the sentence: after the encryption
  gate the passphrase prompt is reached, after the re-encrypt gate the menu is left for
  the encryption logic. The lines accepted are the sentence with whitespace before and
  after it, and nothing else; the sentence followed by a space is accepted.
\<close>

theorem confirmation_gate_accepts_iff:
  "(snd (get_partition_table_type e dev) = ''gpt'' \<longrightarrow>
      ((\<exists>x\<in>set (fst (encrypt_device e dev (l # ls) tty)). asks_passphrase x) \<longleftrightarrow>
       strip l = encrypt_text)) \<and>
   (lower (strip a) = ''re-encrypt'' \<longrightarrow>
      ((\<exists>rest. snd (encrypted_menu e dev (a # l # ls) tty) = Inr rest) \<longleftrightarrow>
       strip l = reencrypt_text)) \<and>
   (strip l = encrypt_text \<longleftrightarrow>
      (\<exists>u v. l = u @ encrypt_text @ v \<and> (\<forall>c\<in>set u. isspace c) \<and> (\<forall>c\<in>set v. isspace c))) \<and>
   (strip l = reencrypt_text \<longleftrightarrow>
      (\<exists>u v. l = u @ reencrypt_text @ v \<and> (\<forall>c\<in>set u. isspace c) \<and>
             (\<forall>c\<in>set v. isspace c))) \<and>
   strip (encrypt_text @ '' '') = encrypt_text \<and>
   strip (reencrypt_text @ '' '') = reencrypt_text"
proof (intro conjI impI)
  assume g: "snd (get_partition_table_type e dev) = ''gpt''"
  show "(\<exists>x\<in>set (fst (encrypt_device e dev (l # ls) tty)). asks_passphrase x) \<longleftrightarrow>
       strip l = encrypt_text"
  proof (cases "strip l = encrypt_text")
    case True
    with g have "fst (encrypt_device e dev (l # ls) tty) =
        fst (get_partition_table_type e dev) @ Input ''> '' l #
        fst (format_and_open e dev ls tty)"
      by (simp add: encrypt_device_def Let_def prepend_def)
    with format_and_open_asks [of e dev ls tty] True show ?thesis by auto
  next
    case False
    with g have "fst (encrypt_device e dev (l # ls) tty) =
        fst (get_partition_table_type e dev) @ [Input ''> '' l]"
      by (simp add: encrypt_device_def Let_def prepend_def)
    with False show ?thesis by (simp add: partition_trace asks_passphrase_def)
  qed
next
  assume "lower (strip a) = ''re-encrypt''"
  then show "(\<exists>rest. snd (encrypted_menu e dev (a # l # ls) tty) = Inr rest) \<longleftrightarrow>
       strip l = reencrypt_text"
    by (simp add: Let_def)
next
  show "strip l = encrypt_text \<longleftrightarrow>
      (\<exists>u v. l = u @ encrypt_text @ v \<and> (\<forall>c\<in>set u. isspace c) \<and> (\<forall>c\<in>set v. isspace c))"
    by (rule strip_eq_iff) (rule texts_trimmed)+
next
  show "strip l = reencrypt_text \<longleftrightarrow>
      (\<exists>u v. l = u @ reencrypt_text @ v \<and> (\<forall>c\<in>set u. isspace c) \<and>
             (\<forall>c\<in>set v. isspace c))"
    by (rule strip_eq_iff) (rule texts_trimmed)+
next
  show "strip (encrypt_text @ '' '') = encrypt_text"
    using strip_surrounded [of encrypt_text "[]" "'' ''"] texts_trimmed
    by (simp add: isspace_def)
next
  show "strip (reencrypt_text @ '' '') = reencrypt_text"
    using strip_surrounded [of reencrypt_text "[]" "'' ''"] texts_trimmed
    by (simp add: isspace_def)
qed

theorem confirmation_gate_accepts_iff_witness:
  "snd (get_partition_table_type (sample_env 0 False ''gpt'') ''/dev/sdb'') = ''gpt'' \<and>
   strip ([CHR 0x09] @ encrypt_text @ ''  '') = encrypt_text \<and>
   (\<exists>x\<in>set (fst (encrypt_device (sample_env 0 False ''gpt'') ''/dev/sdb''
                      [[CHR 0x09] @ encrypt_text @ ''  ''] [])). asks_passphrase x)"
proof -
  have g: "snd (get_partition_table_type (sample_env 0 False ''gpt'') ''/dev/sdb'') = ''gpt''"
    by code_simp
  have s: "strip ([CHR 0x09] @ encrypt_text @ ''  '') = encrypt_text" by code_simp
  from confirmation_gate_accepts_iff [of "sample_env 0 False ''gpt''" "''/dev/sdb''"
      "[CHR 0x09] @ encrypt_text @ ''  ''" "[]" "[]" "[]"] g s
  show ?thesis by blast
qed

text \<open>
  C3 as stated fails: the encryption sentence followed by a space strips to the sentence,
  and the run that types it formats the device and returns.
\<close>

theorem trailing_space_rejected_counterexample:
  "strip (encrypt_text @ '' '') = encrypt_text \<and>
   is_format (fst (main (sample_env 0 False ''gpt'') [''1'', encrypt_text @ '' '', ''usb'']
                     [''longenough1'', ''longenough1'']) ! 7) \<and>
   snd (main (sample_env 0 False ''gpt'') [''1'', encrypt_text @ '' '', ''usb'']
          [''longenough1'', ''longenough1'']) = Returned"
  by code_simp

text \<open>
  C4, as the code has it. A line that does not match ends the process with exit status 0
  at once, at either gate: the read of the line is the last event, so there is no second
  prompt and no command after it. The first two parts are the two gates; the third is a
  whole run, for a line that matches neither sentence.
\<close>

theorem mismatched_confirmation_exits:
  "(snd (get_partition_table_type e dev) = ''gpt'' \<longrightarrow> strip l \<noteq> encrypt_text \<longrightarrow>
      encrypt_device e dev (l # ls) tty =
        (fst (get_partition_table_type e dev) @ [Input ''> '' l], Exit 0)) \<and>
   (lower (strip a) = ''re-encrypt'' \<longrightarrow> strip l \<noteq> reencrypt_text \<longrightarrow>
      encrypted_menu e dev (a # l # ls) tty =
        ([Input action_prompt a, Input ''> '' l], Inl (Exit 0))) \<and>
   (\<forall>tr out. main e inp tty = (tr, out) \<longrightarrow> Input ''> '' l \<in> set tr \<longrightarrow>
      strip l \<noteq> encrypt_text \<longrightarrow> strip l \<noteq> reencrypt_text \<longrightarrow>
      out = Exit 0 \<and> (\<exists>before. tr = before @ [Input ''> '' l]))"
proof (intro conjI allI impI)
  assume "snd (get_partition_table_type e dev) = ''gpt''" "strip l \<noteq> encrypt_text"
  then show "encrypt_device e dev (l # ls) tty =
        (fst (get_partition_table_type e dev) @ [Input ''> '' l], Exit 0)"
    by (simp add: encrypt_device_def Let_def prepend_def)
next
  assume "lower (strip a) = ''re-encrypt''" "strip l \<noteq> reencrypt_text"
  then show "encrypted_menu e dev (a # l # ls) tty =
        ([Input action_prompt a, Input ''> '' l], Inl (Exit 0))"
    by (simp add: Let_def)
next
  fix tr out
  assume "main e inp tty = (tr, out)" "Input ''> '' l \<in> set tr"
    "strip l \<noteq> encrypt_text" "strip l \<noteq> reencrypt_text"
  from main_mismatch [OF this] show "out = Exit 0" by simp
next
  fix tr out
  assume "main e inp tty = (tr, out)" "Input ''> '' l \<in> set tr"
    "strip l \<noteq> encrypt_text" "strip l \<noteq> reencrypt_text"
  from main_mismatch [OF this] show "\<exists>before. tr = before @ [Input ''> '' l]" by simp
qed

theorem mismatched_confirmation_exits_witness:
  "snd (get_partition_table_type (sample_env 0 False ''gpt'') ''/dev/sdb'') = ''gpt'' \<and>
   strip ''i understand'' \<noteq> encrypt_text \<and>
   encrypt_device (sample_env 0 False ''gpt'') ''/dev/sdb'' [''i understand'', encrypt_text]
       [''longenough1'', ''longenough1''] =
     (fst (get_partition_table_type (sample_env 0 False ''gpt'') ''/dev/sdb'') @
        [Input ''> '' ''i understand''], Exit 0)"
proof -
  have g: "snd (get_partition_table_type (sample_env 0 False ''gpt'') ''/dev/sdb'') = ''gpt''"
    by code_simp
  have n: "strip ''i understand'' \<noteq> encrypt_text" by code_simp
  from mismatched_confirmation_exits [of "sample_env 0 False ''gpt''" "''/dev/sdb''"
      "''i understand''" "[encrypt_text]" "[''longenough1'', ''longenough1'']"] g n
  show ?thesis by blast
qed

text \<open>
  C4 as stated fails: after \<open>yes\<close> at either gate the process has ended with status 0,
  and the right sentence, next on the input, is never read.
\<close>

theorem confirmation_mismatch_reprompts_counterexample:
  "main (sample_env 0 False ''gpt'') [''1'', ''yes'', encrypt_text, ''usb'']
     [''longenough1'', ''longenough1''] =
     ([Run lsblk_list_command None (Inr (''listing'', [])),
       Input select_prompt ''1'',
       Run (lsblk_device_command ''/dev/sdb'') None (Inr (''plain'', [])),
       Run (parted_command ''/dev/sdb'') None
         (Inr (''Model: Acme Stick (scsi)'' @ [CHR 0x0A] @ ''Partition Table: gpt'' @ [CHR 0x0A],
               [])),
       Input ''> '' ''yes''],
      Exit 0) \<and>
   main (sample_env 0 True ''gpt'') [''1'', ''re-encrypt'', ''yes'', reencrypt_text]
     [''longenough1'', ''longenough1''] =
     ([Run lsblk_list_command None (Inr (''listing'', [])),
       Input select_prompt ''1'',
       Run (lsblk_device_command ''/dev/sdb'') None (Inr (''luks'', [])),
       Input action_prompt ''re-encrypt'',
       Input ''> '' ''yes''],
      Exit 0)"
  by code_simp

section \<open>The passphrase\<close>

text \<open>
  C7. A pass of the passphrase loop ends the loop exactly when the two entries are equal
  and the first has at least 8 characters; otherwise both are asked again. Whatever the
  loop returns was entered twice in its last pass and has at least 8 characters, and the
  passphrase piped to \<open>cryptsetup luksFormat\<close> in a run of \<open>main\<close> is such a one.
\<close>

theorem passphrase_policy:
  "collect_passphrase (p1 # p2 # rest) =
     (if p1 = p2 \<and> 8 \<le> length p1
      then ([GetPass passphrase_prompt p1, GetPass confirm_passphrase_prompt p2], Inr p1)
      else prepend [GetPass passphrase_prompt p1, GetPass confirm_passphrase_prompt p2]
             (collect_passphrase rest)) \<and>
   (\<forall>tr p. collect_passphrase tty = (tr, Inr p) \<longrightarrow>
      8 \<le> length p \<and>
      (\<exists>before. tr = before @ [GetPass passphrase_prompt p,
                                 GetPass confirm_passphrase_prompt p])) \<and>
   (\<forall>tr out c si r. main e inp tty = (tr, out) \<longrightarrow> Run c si r \<in> set tr \<longrightarrow>
      is_format (Run c si r) \<longrightarrow>
      (\<exists>pw. si = Some (format_input pw) \<and> 8 \<le> length pw \<and>
            GetPass passphrase_prompt pw \<in> set tr \<and>
            GetPass confirm_passphrase_prompt pw \<in> set tr))"
proof (intro conjI allI impI)
  show "collect_passphrase (p1 # p2 # rest) =
     (if p1 = p2 \<and> 8 \<le> length p1
      then ([GetPass passphrase_prompt p1, GetPass confirm_passphrase_prompt p2], Inr p1)
      else prepend [GetPass passphrase_prompt p1, GetPass confirm_passphrase_prompt p2]
             (collect_passphrase rest))"
    by auto
next
  fix tr p
  assume "collect_passphrase tty = (tr, Inr p)"
  from collect_passphrase_accepted [OF this]
  show "8 \<le> length p" by simp
next
  fix tr p
  assume "collect_passphrase tty = (tr, Inr p)"
  from collect_passphrase_accepted [OF this]
  show "\<exists>before. tr = before @ [GetPass passphrase_prompt p,
                                  GetPass confirm_passphrase_prompt p]" by simp
next
  fix tr out c si r
  assume m: "main e inp tty = (tr, out)" and mem: "Run c si r \<in> set tr"
    and f: "is_format (Run c si r)"
  from mem obtain pre post where cut: "tr = pre @ Run c si r # post"
    by (auto simp: in_set_conv_decomp)
  from main_format_event [OF m cut f] obtain dev passes pw r' lead rp l where
    ev: "Run c si r = Run (luks_format_command dev) (Some (format_input pw)) r'"
      "8 \<le> length pw"
      "GetPass passphrase_prompt pw \<in> set passes"
      "GetPass confirm_passphrase_prompt pw \<in> set passes"
      "pre = lead @ [Run (parted_command dev) None rp, Input ''> '' l] @ passes"
    by blast
  from ev(3,4,5) cut have "GetPass passphrase_prompt pw \<in> set tr"
    "GetPass confirm_passphrase_prompt pw \<in> set tr" by simp_all
  with ev(1,2)
  show "\<exists>pw. si = Some (format_input pw) \<and> 8 \<le> length pw \<and>
            GetPass passphrase_prompt pw \<in> set tr \<and>
            GetPass confirm_passphrase_prompt pw \<in> set tr" by blast
qed

theorem passphrase_policy_witness:
  "snd (collect_passphrase [''abc123'', ''abc123'', ''longenough1'', ''different1'',
                            ''longenough1'', ''longenough1'']) = Inr ''longenough1'' \<and>
   8 \<le> length ''longenough1'' \<and>
   (\<exists>before. fst (collect_passphrase [''abc123'', ''abc123'', ''longenough1'', ''different1'',
                            ''longenough1'', ''longenough1'']) =
      before @ [GetPass passphrase_prompt ''longenough1'',
                GetPass confirm_passphrase_prompt ''longenough1''])"
proof -
  let ?tty = "[''abc123'', ''abc123'', ''longenough1'', ''different1'',
               ''longenough1'', ''longenough1'']"
  have s: "snd (collect_passphrase ?tty) = Inr ''longenough1''" by code_simp
  then have run: "collect_passphrase ?tty = (fst (collect_passphrase ?tty), Inr ''longenough1'')"
    by (metis prod.collapse)
  from passphrase_policy [of "''abc123''" "''abc123''" "[]" ?tty
      "sample_env 0 False ''gpt''" "[]"] run
  have "8 \<le> length ''longenough1'' \<and>
      (\<exists>before. fst (collect_passphrase ?tty) =
         before @ [GetPass passphrase_prompt ''longenough1'',
                   GetPass confirm_passphrase_prompt ''longenough1''])"
    by blast
  with s show ?thesis by blast
qed

section \<open>The mapper name\<close>

text \<open>
  C8. In a run of \<open>main\<close>, when the name typed at either mapper-name prompt, stripped,
  names an existing \<open>/dev/mapper/\<close> path, the process ends with exit status 1 and
  \<open>cryptsetup luksOpen\<close> is not called anywhere in the run; for a name that is not
  empty the query of the path is the last event.
\<close>

theorem existing_mapper_name_is_fatal:
  assumes "main e inp tty = (tr, out)" and "Input q m \<in> set tr"
    and "q = mapper_prompt \<or> q = mapper_prompt_formatted"
    and "path_exists e (''/dev/mapper/'' @ strip m)"
  shows "out = Exit 1 \<and> (\<forall>x\<in>set tr. \<not> is_luks_open x) \<and>
         (strip m \<noteq> [] \<longrightarrow>
            (\<exists>before. tr = before @ [Input q m,
                                      PathExists (''/dev/mapper/'' @ strip m) True]))"
proof -
  from main_mapper_input [OF assms(1,2,3)] consider
      (encrypted) before dev ls where "q = mapper_prompt" "\<forall>x\<in>set before. prelude x"
        "tr = before @ fst (open_encrypted e dev (m # ls) tty)"
        "out = snd (open_encrypted e dev (m # ls) tty)"
    | (formatted) before dev pw ls where "q = mapper_prompt_formatted"
        "\<forall>x\<in>set before. \<not> is_luks_open x"
        "tr = before @ fst (open_formatted e dev pw (m # ls))"
        "out = snd (open_formatted e dev pw (m # ls))"
    by blast
  then show ?thesis
  proof cases
    case encrypted
    have "open_encrypted e dev (m # ls) tty =
            (if strip m = [] then ([Input mapper_prompt m], Exit 1)
             else ([Input mapper_prompt m, PathExists (''/dev/mapper/'' @ strip m) True],
                   Exit 1))"
      using assms(4) by (simp add: open_encrypted_def Let_def)
    with encrypted prelude_quiet show ?thesis
      by (auto simp: is_luks_open_def)
  next
    case formatted
    have "open_formatted e dev pw (m # ls) =
            (if strip m = [] then ([Input mapper_prompt_formatted m], Exit 1)
             else ([Input mapper_prompt_formatted m,
                    PathExists (''/dev/mapper/'' @ strip m) True], Exit 1))"
      using assms(4) by (simp add: open_formatted_def Let_def)
    with formatted show ?thesis
      by (auto simp: is_luks_open_def)
  qed
qed

theorem existing_mapper_name_is_fatal_witness:
  "path_exists (sample_env 0 True ''gpt'') (''/dev/mapper/'' @ strip '' taken '') \<and>
   snd (main (sample_env 0 True ''gpt'') [''1'', ''open'', '' taken ''] [''secret'']) = Exit 1 \<and>
   \<not> (\<exists>x\<in>set (fst (main (sample_env 0 True ''gpt'') [''1'', ''open'', '' taken '']
                          [''secret''])). is_luks_open x) \<and>
   snd (main (sample_env 0 False ''gpt'') [''1'', encrypt_text, ''taken'']
          [''longenough1'', ''longenough1'']) = Exit 1 \<and>
   \<not> (\<exists>x\<in>set (fst (main (sample_env 0 False ''gpt'') [''1'', encrypt_text, ''taken'']
                          [''longenough1'', ''longenough1''])). is_luks_open x)"
proof -
  let ?a = "main (sample_env 0 True ''gpt'') [''1'', ''open'', '' taken ''] [''secret'']"
  let ?b = "main (sample_env 0 False ''gpt'') [''1'', encrypt_text, ''taken'']
              [''longenough1'', ''longenough1'']"
  have a1: "?a = (fst ?a, snd ?a)" and b1: "?b = (fst ?b, snd ?b)" by simp_all
  have a2: "Input mapper_prompt '' taken '' \<in> set (fst ?a)" by code_simp
  have b2: "Input mapper_prompt_formatted ''taken'' \<in> set (fst ?b)" by code_simp
  have a3: "path_exists (sample_env 0 True ''gpt'') (''/dev/mapper/'' @ strip '' taken '')"
    by code_simp
  have b3: "path_exists (sample_env 0 False ''gpt'') (''/dev/mapper/'' @ strip ''taken'')"
    by code_simp
  from existing_mapper_name_is_fatal [OF a1 a2 _ a3]
       existing_mapper_name_is_fatal [OF b1 b2 _ b3] a3
  show ?thesis by blast
qed

text \<open>
  C10. In a run of \<open>main\<close>, a line of whitespace only (or an empty line) at either
  mapper-name prompt ends the process with exit status 1; the read is the last event of
  the run, so the prompt is not repeated, and \<open>cryptsetup luksOpen\<close> has not been
  called. At the prompt after the format, a successful \<open>cryptsetup luksFormat\<close> is
  among the events before.
\<close>

theorem empty_mapper_name_is_fatal:
  assumes "main e inp tty = (tr, out)" and "Input q m \<in> set tr"
    and "q = mapper_prompt \<or> q = mapper_prompt_formatted"
    and "\<forall>c\<in>set m. isspace c"
  shows "out = Exit 1 \<and>
         (\<exists>before. tr = before @ [Input q m] \<and> (\<forall>x\<in>set before. \<not> is_luks_open x) \<and>
            (q = mapper_prompt_formatted \<longrightarrow>
               (\<exists>dev si so. Run (luks_format_command dev) si (Inr so) \<in> set before)))"
proof -
  have empty: "strip m = []" using assms(4) by (rule strip_all_space)
  from main_mapper_input [OF assms(1,2,3)] consider
      (encrypted) before dev ls where "q = mapper_prompt" "\<forall>x\<in>set before. prelude x"
        "tr = before @ fst (open_encrypted e dev (m # ls) tty)"
        "out = snd (open_encrypted e dev (m # ls) tty)"
    | (formatted) before dev pw ls si so where "q = mapper_prompt_formatted"
        "\<forall>x\<in>set before. \<not> is_luks_open x"
        "Run (luks_format_command dev) si (Inr so) \<in> set before"
        "tr = before @ fst (open_formatted e dev pw (m # ls))"
        "out = snd (open_formatted e dev pw (m # ls))"
    by blast
  then show ?thesis
  proof cases
    case encrypted
    have "open_encrypted e dev (m # ls) tty = ([Input mapper_prompt m], Exit 1)"
      using empty by (simp add: open_encrypted_def Let_def)
    with encrypted have "out = Exit 1" "tr = before @ [Input q m]"
      "\<forall>x\<in>set before. \<not> is_luks_open x" "q \<noteq> mapper_prompt_formatted"
      using prelude_quiet prompts_differ by auto
    then show ?thesis by blast
  next
    case formatted
    have "open_formatted e dev pw (m # ls) = ([Input mapper_prompt_formatted m], Exit 1)"
      using empty by (simp add: open_formatted_def Let_def)
    with formatted have "out = Exit 1" "tr = before @ [Input q m]" by auto
    with formatted(2,3) show ?thesis by blast
  qed
qed

theorem empty_mapper_name_is_fatal_witness:
  "snd (main (sample_env 0 True ''gpt'') [''1'', ''open'', ''  '', ''usb''] [''secret'']) = Exit 1 \<and>
   (\<exists>before. fst (main (sample_env 0 True ''gpt'') [''1'', ''open'', ''  '', ''usb'']
                     [''secret'']) = before @ [Input mapper_prompt ''  '']) \<and>
   snd (main (sample_env 0 False ''gpt'') [''1'', encrypt_text, [], ''usb'']
          [''longenough1'', ''longenough1'']) = Exit 1 \<and>
   (\<exists>before. fst (main (sample_env 0 False ''gpt'') [''1'', encrypt_text, [], ''usb'']
                     [''longenough1'', ''longenough1'']) =
                before @ [Input mapper_prompt_formatted []] \<and>
              (\<exists>dev si so. Run (luks_format_command dev) si (Inr so) \<in> set before))"
proof -
  let ?a = "main (sample_env 0 True ''gpt'') [''1'', ''open'', ''  '', ''usb''] [''secret'']"
  let ?b = "main (sample_env 0 False ''gpt'') [''1'', encrypt_text, [], ''usb'']
              [''longenough1'', ''longenough1'']"
  have a1: "?a = (fst ?a, snd ?a)" and b1: "?b = (fst ?b, snd ?b)" by simp_all
  have a2: "Input mapper_prompt ''  '' \<in> set (fst ?a)" by code_simp
  have b2: "Input mapper_prompt_formatted [] \<in> set (fst ?b)" by code_simp
  have a3: "\<forall>c\<in>set ''  ''. isspace c" by (simp add: isspace_def)
  have b3: "\<forall>c\<in>set ([]::string). isspace c" by simp
  from empty_mapper_name_is_fatal [OF a1 a2 _ a3]
  have a: "snd ?a = Exit 1 \<and> (\<exists>before. fst ?a = before @ [Input mapper_prompt ''  ''])"
    by blast
  from empty_mapper_name_is_fatal [OF b1 b2 _ b3]
  have b: "snd ?b = Exit 1 \<and>
    (\<exists>before. fst ?b = before @ [Input mapper_prompt_formatted []] \<and>
              (\<exists>dev si so. Run (luks_format_command dev) si (Inr so) \<in> set before))"
    by blast
  from a b show ?thesis by blast
qed

section \<open>The partition table\<close>

text \<open>
  C2, as the code has it. \<open>get_partition_table_type\<close> returns \<open>unknown\<close> when the
  command fails and when the output does not contain \<open>Partition Table:\<close>; otherwise it
  returns, in lower case and stripped, the text between the first and the second colon of
  the first line that contains the label, whatever that text is. The encryption logic
  stops with exit status 1 right after the check exactly when the value is not \<open>gpt\<close>.
\<close>

theorem partition_table_type_value:
  "table_type_of (Inl err) = ''unknown'' \<and>
   (\<not> sublist ''Partition Table:'' out \<longrightarrow> table_type_of (Inr (out, errs)) = ''unknown'') \<and>
   (splitlines out = before @ line # after \<longrightarrow>
      (\<forall>x\<in>set before. \<not> sublist ''Partition Table:'' x) \<longrightarrow>
      sublist ''Partition Table:'' line \<longrightarrow>
      table_type_of (Inr (out, errs)) = lower (strip (split_py (CHR '':'') line ! 1))) \<and>
   snd (get_partition_table_type e dev) =
     table_type_of (run_command e (parted_command dev) None False) \<and>
   (snd (get_partition_table_type e dev) \<noteq> ''gpt'' \<longleftrightarrow>
      encrypt_device e dev inp tty = (fst (get_partition_table_type e dev), Exit 1))"
proof (intro conjI impI)
  show "table_type_of (Inl err) = ''unknown''" by (simp add: table_type_of_def)
next
  assume "\<not> sublist ''Partition Table:'' out"
  then show "table_type_of (Inr (out, errs)) = ''unknown''" by (rule table_type_no_label)
next
  assume "splitlines out = before @ line # after"
    "\<forall>x\<in>set before. \<not> sublist ''Partition Table:'' x"
    "sublist ''Partition Table:'' line"
  with scan_lines_first [of before line after]
  show "table_type_of (Inr (out, errs)) = lower (strip (split_py (CHR '':'') line ! 1))"
    by (simp add: table_type_of_def)
next
  show "snd (get_partition_table_type e dev) =
     table_type_of (run_command e (parted_command dev) None False)"
    by (simp add: partition_trace)
next
  show "snd (get_partition_table_type e dev) \<noteq> ''gpt'' \<longleftrightarrow>
      encrypt_device e dev inp tty = (fst (get_partition_table_type e dev), Exit 1)"
  proof (cases "snd (get_partition_table_type e dev) = ''gpt''")
    case False
    then show ?thesis by (simp add: encrypt_device_def Let_def)
  next
    case True
    then have "length (fst (encrypt_device e dev inp tty)) >
               length (fst (get_partition_table_type e dev))"
      by (cases inp) (simp_all add: encrypt_device_def Let_def prepend_def)
    with True show ?thesis by auto
  qed
qed

theorem partition_table_type_value_witness:
  "splitlines (''Model: Acme Stick (scsi)'' @ [CHR 0x0A] @ ''Partition Table: GPT'' @ [CHR 0x0A]) =
     [''Model: Acme Stick (scsi)''] @ ''Partition Table: GPT'' # [] \<and>
   table_type_of
     (Inr (''Model: Acme Stick (scsi)'' @ [CHR 0x0A] @ ''Partition Table: GPT'' @ [CHR 0x0A], [])) =
     lower (strip (split_py (CHR '':'') ''Partition Table: GPT'' ! 1)) \<and>
   lower (strip (split_py (CHR '':'') ''Partition Table: GPT'' ! 1)) = ''gpt''"
proof -
  let ?out = "''Model: Acme Stick (scsi)'' @ [CHR 0x0A] @ ''Partition Table: GPT'' @ [CHR 0x0A]"
  have a: "splitlines ?out = [''Model: Acme Stick (scsi)''] @ ''Partition Table: GPT'' # []"
    by code_simp
  have b: "\<forall>x\<in>set [''Model: Acme Stick (scsi)'']. \<not> sublist ''Partition Table:'' x"
    by code_simp
  have c: "sublist ''Partition Table:'' ''Partition Table: GPT''" by code_simp
  have d: "lower (strip (split_py (CHR '':'') ''Partition Table: GPT'' ! 1)) = ''gpt''"
    by code_simp
  from partition_table_type_value [of OSError ?out "[]" "[''Model: Acme Stick (scsi)'']"
      "''Partition Table: GPT''" "[]" "sample_env 0 False ''gpt''" "''/dev/sdb''" "[]" "[]"]
    a b c
  have "table_type_of (Inr (?out, [])) =
     lower (strip (split_py (CHR '':'') ''Partition Table: GPT'' ! 1))"
    by blast
  with a d show ?thesis by blast
qed

text \<open>
  C2 as stated fails: for the line \<open>Partition Table: msdos\<close>, which is what parted prints
  for an MBR disk, the value is \<open>msdos\<close>, none of the four names.
\<close>

theorem partition_table_type_enum_counterexample:
  "snd (get_partition_table_type (sample_env 0 False ''msdos'') ''/dev/sdb'') = ''msdos'' \<and>
   ''msdos'' \<notin> {''gpt'', ''mbr'', ''unknown'', ''other''}"
  by code_simp

section \<open>Detection of LUKS\<close>

text \<open>
  C5. \<open>detect_luks_encryption\<close> returns a truth value for every environment and device
  path. It is \<open>False\<close> when the command fails, when its output is not JSON, and when
  reading the parsed listing raises. For a listing whose first device entry is an object
  with, if any, a list of objects as children, it is \<open>True\<close> exactly when the entry or
  one of the children has type \<open>crypt\<close> or filesystem type \<open>crypto_LUKS\<close>.
\<close>

theorem detect_luks_encryption_iff:
  "((\<exists>err. run_command e (lsblk_device_command dev) None True = Inl err) \<longrightarrow>
      \<not> snd (detect_luks_encryption e dev)) \<and>
   (run_command e (lsblk_device_command dev) None True = Inr (out, errs) \<longrightarrow>
      (\<exists>err. json_loads e out = Inl err) \<longrightarrow> \<not> snd (detect_luks_encryption e dev)) \<and>
   (run_command e (lsblk_device_command dev) None True = Inr (out, errs) \<longrightarrow>
      json_loads e out = Inr data \<longrightarrow> (\<exists>err. crypt_in data = Inl err) \<longrightarrow>
      \<not> snd (detect_luks_encryption e dev)) \<and>
   (run_command e (lsblk_device_command dev) None True = Inr (out, errs) \<longrightarrow>
      json_loads e out = Inr (JObj root) \<longrightarrow>
      map_of root ''blockdevices'' = Some (JList (JObj entry # others)) \<longrightarrow>
      dict_get entry ''children'' (JList []) = JList children \<longrightarrow>
      (\<forall>c\<in>set children. \<exists>kv. c = JObj kv) \<longrightarrow>
      (snd (detect_luks_encryption e dev) \<longleftrightarrow>
         crypt_entry entry \<or> (\<exists>kv. JObj kv \<in> set children \<and> crypt_entry kv)))"
proof (intro conjI impI)
  assume "\<exists>err. run_command e (lsblk_device_command dev) None True = Inl err"
  then show "\<not> snd (detect_luks_encryption e dev)"
    by (auto simp: detect_luks_encryption_def Let_def)
next
  assume "run_command e (lsblk_device_command dev) None True = Inr (out, errs)"
    "\<exists>err. json_loads e out = Inl err"
  then show "\<not> snd (detect_luks_encryption e dev)"
    by (auto simp: detect_luks_encryption_def Let_def)
next
  assume "run_command e (lsblk_device_command dev) None True = Inr (out, errs)"
    "json_loads e out = Inr data" "\<exists>err. crypt_in data = Inl err"
  then show "\<not> snd (detect_luks_encryption e dev)"
    by (auto simp: detect_luks_encryption_def Let_def)
next
  assume r: "run_command e (lsblk_device_command dev) None True = Inr (out, errs)"
    "json_loads e out = Inr (JObj root)"
    and w: "map_of root ''blockdevices'' = Some (JList (JObj entry # others))"
    "dict_get entry ''children'' (JList []) = JList children"
    "\<forall>c\<in>set children. \<exists>kv. c = JObj kv"
  from crypt_in_entries [OF w] r
  show "snd (detect_luks_encryption e dev) \<longleftrightarrow>
         crypt_entry entry \<or> (\<exists>kv. JObj kv \<in> set children \<and> crypt_entry kv)"
    by (simp add: detect_luks_encryption_def Let_def)
qed

theorem detect_luks_encryption_iff_witness:
  "crypt_entry [(''name'', JStr ''sdb1''), (''type'', JStr ''part''),
                (''fstype'', JStr ''crypto_LUKS'')] \<and>
   snd (detect_luks_encryption (sample_env 0 True ''gpt'') ''/dev/sdb'') \<and>
   \<not> snd (detect_luks_encryption (sample_env 0 False ''gpt'') ''/dev/sdb'')"
proof -
  let ?child = "[(''name'', JStr ''sdb1''), (''type'', JStr ''part''),
                 (''fstype'', JStr ''crypto_LUKS'')]"
  let ?plain = "[(''name'', JStr ''sdb1''), (''type'', JStr ''part''),
                 (''fstype'', JStr ''vfat'')]"
  let ?entry = "\<lambda>child. [(''name'', JStr ''sdb''), (''type'', JStr ''disk''), (''fstype'', JNull),
                 (''children'', JList [JObj child])]"
  let ?root = "\<lambda>child. [(''blockdevices'', JList [JObj (?entry child)])]"
  have r: "run_command (sample_env 0 True ''gpt'') (lsblk_device_command ''/dev/sdb'') None True =
             Inr (''luks'', [])"
    by code_simp
  have j: "json_loads (sample_env 0 True ''gpt'') ''luks'' = Inr (JObj (?root ?child))"
    by code_simp
  have b: "map_of (?root ?child) ''blockdevices'' = Some (JList (JObj (?entry ?child) # []))"
    by simp
  have c: "dict_get (?entry ?child) ''children'' (JList []) = JList [JObj ?child]"
    by (simp add: dict_get_def)
  have w: "\<forall>c\<in>set [JObj ?child]. \<exists>kv. c = JObj kv" by simp
  have k: "crypt_entry ?child" by (simp add: crypt_entry_def)
  from detect_luks_encryption_iff [of "sample_env 0 True ''gpt''" "''/dev/sdb''" "''luks''" "[]"
      "JObj (?root ?child)" "?root ?child" "?entry ?child" "[]" "[JObj ?child]"] r j b c w k
  have yes: "snd (detect_luks_encryption (sample_env 0 True ''gpt'') ''/dev/sdb'')"
    by simp
  have r': "run_command (sample_env 0 False ''gpt'') (lsblk_device_command ''/dev/sdb'') None True =
             Inr (''plain'', [])"
    by code_simp
  have j': "json_loads (sample_env 0 False ''gpt'') ''plain'' = Inr (JObj (?root ?plain))"
    by code_simp
  have b': "map_of (?root ?plain) ''blockdevices'' = Some (JList (JObj (?entry ?plain) # []))"
    by simp
  have c': "dict_get (?entry ?plain) ''children'' (JList []) = JList [JObj ?plain]"
    by (simp add: dict_get_def)
  have w': "\<forall>c\<in>set [JObj ?plain]. \<exists>kv. c = JObj kv" by simp
  have k': "\<not> crypt_entry ?plain" "\<not> crypt_entry (?entry ?plain)"
    by (simp_all add: crypt_entry_def)
  from detect_luks_encryption_iff [of "sample_env 0 False ''gpt''" "''/dev/sdb''" "''plain''" "[]"
      "JObj (?root ?plain)" "?root ?plain" "?entry ?plain" "[]" "[JObj ?plain]"] r' j' b' c' w' k'
  have no: "\<not> snd (detect_luks_encryption (sample_env 0 False ''gpt'') ''/dev/sdb'')"
    by simp
  from k yes no show ?thesis by blast
qed

section \<open>The catalog\<close>

text \<open>
  C6 fails on the code. \<open>get_block_devices\<close> drops an entry when \<open>not removable\<close>
  holds, and the text \<open>0\<close> is not empty, so Python takes it for true: the internal disk
  whose \<open>rm\<close> value is the text \<open>0\<close> is returned by the catalog, first in the list,
  while the same entry with the JSON value \<open>false\<close> is dropped.
\<close>

theorem text_rm_keeps_internal_disk:
  "block_device (internal_disk (JBool False)) = Inr None \<and>
   block_device (internal_disk (JStr ''0'')) =
     Inr (Some \<lparr>name = ''/dev/sda'', size = JStr ''500G'',
                display_name = [Lit ''ATA'', Lit '' '', Lit ''Internal'', Lit '' '',
                                Val (JStr ''500G'')],
                model = ''Internal'', vendor = ''ATA'', is_mounted = False\<rparr>) \<and>
   snd (get_block_devices text_env) =
     Inr [\<lparr>name = ''/dev/sda'', size = JStr ''500G'',
           display_name = [Lit ''ATA'', Lit '' '', Lit ''Internal'', Lit '' '',
                           Val (JStr ''500G'')],
           model = ''Internal'', vendor = ''ATA'', is_mounted = False\<rparr>,
          \<lparr>name = ''/dev/sdb'', size = JStr ''16G'',
           display_name = [Lit ''Acme'', Lit '' '', Lit ''Stick'', Lit '' '',
                           Val (JStr ''16G'')],
           model = ''Stick'', vendor = ''Acme'', is_mounted = False\<rparr>]"
  by code_simp

text \<open>
  What the filter does ensure: every device record returned comes from an entry of the
  listing that has type \<open>disk\<close>, whose \<open>rm\<close> value passes Python's truth test, and
  whose name, in lower case, does not contain \<open>nvme\<close>; the name of the record,
  \<open>/dev/\<close> and the entry's name, does not contain it either.
\<close>

lemma listed_devices_passed_filter:
  assumes "get_block_devices e = (tr, Inr devices)" and "d \<in> set devices"
  shows "\<exists>out errs root blocks kvs n.
           run_command e lsblk_list_command None True = Inr (out, errs) \<and>
           json_loads e out = Inr (JObj root) \<and>
           iter_py (dict_get root ''blockdevices'' (JList [])) = Inr blocks \<and>
           JObj kvs \<in> set blocks \<and>
           map_of kvs ''type'' = Some (JStr ''disk'') \<and>
           map_of kvs ''name'' = Some (JStr n) \<and> name d = ''/dev/'' @ n \<and>
           truthy (dict_get kvs ''rm'' (JBool False)) \<and>
           dict_get kvs ''rm'' (JBool False) \<noteq> JBool False \<and>
           \<not> sublist ''nvme'' (lower n) \<and> \<not> sublist ''nvme'' (lower (name d))"
proof -
  from assms(1) obtain out errs data where
    r: "run_command e lsblk_list_command None True = Inr (out, errs)"
      "json_loads e out = Inr data" "devices_of data = Inr devices"
    by (auto simp: get_block_devices_def Let_def split: sum.splits)
  from r(3) obtain root blocks where
    b: "data = JObj root" "iter_py (dict_get root ''blockdevices'' (JList [])) = Inr blocks"
      "scan_blocks blocks = Inr devices"
    by (cases data) (auto simp: devices_of_def get_py_def split: sum.splits)
  from scan_blocks_kept [OF b(3) assms(2)] obtain block where
    k: "block \<in> set blocks" "block_device block = Inr (Some d)" by blast
  from block_device_kept [OF k(2)] obtain kvs n where
    f: "block = JObj kvs" "map_of kvs ''type'' = Some (JStr ''disk'')"
      "map_of kvs ''name'' = Some (JStr n)" "name d = ''/dev/'' @ n"
      "\<not> sublist ''nvme'' (lower n)" "truthy (dict_get kvs ''rm'' (JBool False))"
    by blast
  from f(6) have nf: "dict_get kvs ''rm'' (JBool False) \<noteq> JBool False"
    by (auto simp: truthy_def)
  from f(4,5) nvme_not_across_dev have nd: "\<not> sublist ''nvme'' (lower (name d))"
    by auto
  from r(1,2) b(1,2) k(1) f nf nd show ?thesis by blast
qed

lemma listed_devices_passed_filter_example:
  "snd (get_block_devices (sample_env 0 False ''gpt'')) =
     Inr [\<lparr>name = ''/dev/sdb'', size = JStr ''16G'',
           display_name = [Lit ''Acme'', Lit '' '', Lit ''Stick'', Lit '' '', Val (JStr ''16G'')],
           model = ''Stick'', vendor = ''Acme'', is_mounted = False\<rparr>] \<and>
   (\<exists>out errs root blocks kvs n.
       run_command (sample_env 0 False ''gpt'') lsblk_list_command None True = Inr (out, errs) \<and>
       json_loads (sample_env 0 False ''gpt'') out = Inr (JObj root) \<and>
       iter_py (dict_get root ''blockdevices'' (JList [])) = Inr blocks \<and>
       JObj kvs \<in> set blocks \<and>
       map_of kvs ''type'' = Some (JStr ''disk'') \<and>
       map_of kvs ''name'' = Some (JStr n) \<and> ''/dev/sdb'' = ''/dev/'' @ n \<and>
       truthy (dict_get kvs ''rm'' (JBool False)) \<and>
       dict_get kvs ''rm'' (JBool False) \<noteq> JBool False \<and>
       \<not> sublist ''nvme'' (lower n) \<and> \<not> sublist ''nvme'' (lower ''/dev/sdb''))"
proof -
  let ?d = "\<lparr>name = ''/dev/sdb'', size = JStr ''16G'',
           display_name = [Lit ''Acme'', Lit '' '', Lit ''Stick'', Lit '' '', Val (JStr ''16G'')],
           model = ''Stick'', vendor = ''Acme'', is_mounted = False\<rparr>"
  let ?g = "get_block_devices (sample_env 0 False ''gpt'')"
  have s: "snd ?g = Inr [?d]" by code_simp
  then have run: "?g = (fst ?g, Inr [?d])" by (metis prod.collapse)
  have mem: "?d \<in> set [?d]" by simp
  from listed_devices_passed_filter [OF run mem] s show ?thesis by simp
qed

end
